theory Spec2Isabelle
  imports Complex_Main "HOL-Library.Word"
begin

section \<open>Exceptions\<close>

text \<open>The Python exceptions that the embedded code can raise.\<close>

datatype error = ValueError | IndexError | TypeError | RuntimeError | AssertionError

section \<open>DataInputOperation: the split computation\<close>

text \<open>
  The position of a \<open>DataInputOperation\<close> is the pair of \<open>index\<close>, a Python int, and
  \<open>stop\<close>, which is \<open>float('inf')\<close> until a split stores an int in it. The type
  \<open>stop_bound\<close> keeps the two cases apart. The fractions (\<open>current_element_progress\<close>,
  \<open>fraction_of_remainder\<close>) are Python floats; they are embedded as rationals, so the
  arithmetic on them is exact.
\<close>

datatype stop_bound = Bounded int | Unbounded

fun below_stop :: "int \<Rightarrow> stop_bound \<Rightarrow> bool" where
  "below_stop i Unbounded = True"
| "below_stop i (Bounded k) = (i < k)"

fun stop_le :: "stop_bound \<Rightarrow> stop_bound \<Rightarrow> bool" where
  "stop_le _ Unbounded = True"
| "stop_le Unbounded (Bounded _) = False"
| "stop_le (Bounded a) (Bounded b) = (a \<le> b)"

fun stop_less :: "stop_bound \<Rightarrow> stop_bound \<Rightarrow> bool" where
  "stop_less Unbounded _ = False"
| "stop_less (Bounded _) Unbounded = True"
| "stop_less (Bounded a) (Bounded b) = (a < b)"

text \<open>Python 3 \<open>round\<close> of a float with no digits argument: to the nearest int, ties to even.\<close>

definition py_round :: "rat \<Rightarrow> int" where
  "py_round x =
     (let f = \<lfloor>x\<rfloor>; d = x - of_int f
      in if d < 1 / 2 then f
         else if 1 / 2 < d then f + 1
         else if even f then f else f + 1)"

text \<open>\<open>bisect.bisect\<close> (that is \<open>bisect_right\<close>) on a sorted list: the insertion point after
  every entry that is at most \<open>x\<close>.\<close>

definition bisect :: "int list \<Rightarrow> int \<Rightarrow> nat" where
  "bisect a x = length (takeWhile (\<lambda>y. y \<le> x) a)"

definition is_valid_split_point :: "int list \<Rightarrow> int \<Rightarrow> bool" where
  "is_valid_split_point allowed_split_points i =
     (allowed_split_points = [] \<or> i \<in> set allowed_split_points)"

text \<open>Lines 301-304 of \<open>_compute_split\<close>: the clamp of \<open>total_buffer_size\<close>.\<close>

definition clamp_total_buffer_size :: "int \<Rightarrow> stop_bound \<Rightarrow> int \<Rightarrow> int" where
  "clamp_total_buffer_size index stop total_buffer_size =
     (if total_buffer_size < index + 1 then index + 1
      else case stop of
             Unbounded \<Rightarrow> total_buffer_size
           | Bounded k \<Rightarrow> if total_buffer_size > k then k else total_buffer_size)"

text \<open>Lines 307-308: \<open>keep\<close>, the number of (fractional) elements the primary keeps.\<close>

definition keep_of :: "int \<Rightarrow> rat \<Rightarrow> stop_bound \<Rightarrow> rat \<Rightarrow> int \<Rightarrow> rat" where
  "keep_of index current_element_progress stop fraction_of_remainder total_buffer_size =
     (let total = clamp_total_buffer_size index stop total_buffer_size;
          remainder = of_int total - of_int index - current_element_progress
      in remainder * fraction_of_remainder)"

text \<open>Lines 309-321: the split inside the current element. \<open>try_split\<close> is the downstream
  receiver's split function; it answers \<open>None\<close> or a pair of primaries and residuals.\<close>

definition split_in_element ::
  "int \<Rightarrow> rat \<Rightarrow> rat \<Rightarrow> int list \<Rightarrow> (rat \<Rightarrow> ('p list \<times> 'r list) option)
     \<Rightarrow> (int \<times> 'p list \<times> 'r list \<times> int) option" where
  "split_in_element index current_element_progress keep allowed_split_points try_split =
     (if current_element_progress < 1 then
        (let keep_of_element_remainder = keep / (1 - current_element_progress)
         in if keep_of_element_remainder < 1
               \<and> is_valid_split_point allowed_split_points index
               \<and> is_valid_split_point allowed_split_points (index + 1)
            then (case try_split keep_of_element_remainder of
                    Some (element_primaries, element_residuals) \<Rightarrow>
                      Some (index - 1, element_primaries, element_residuals, index + 1)
                  | None \<Rightarrow> None)
            else None)
      else None)"

text \<open>Lines 325-339: the choice of the closest allowed split point.\<close>

definition closest_allowed_split_point :: "int \<Rightarrow> int \<Rightarrow> int list \<Rightarrow> int" where
  "closest_allowed_split_point index stop_index allowed_split_points =
     (if allowed_split_points \<noteq> [] \<and> stop_index \<notin> set allowed_split_points then
        (let sorted_points = sort allowed_split_points;
             closest = bisect sorted_points stop_index
         in if closest = 0 then sorted_points ! 0
            else if closest = length sorted_points then last sorted_points
            else (let prev = sorted_points ! (closest - 1);
                      next = sorted_points ! closest
                  in if index < prev \<and> stop_index - prev < next - stop_index
                     then prev else next))
      else stop_index)"

text \<open>Line 324: the element boundary closest to what is to be kept.\<close>

definition raw_stop_index :: "int \<Rightarrow> rat \<Rightarrow> rat \<Rightarrow> int" where
  "raw_stop_index index current_element_progress keep =
     index + max 1 (py_round (current_element_progress + keep))"

text \<open>Lines 324-343: the split at an element boundary.\<close>

definition split_at_boundary ::
  "int \<Rightarrow> rat \<Rightarrow> stop_bound \<Rightarrow> rat \<Rightarrow> int list
     \<Rightarrow> (int \<times> 'p list \<times> 'r list \<times> int) option" where
  "split_at_boundary index current_element_progress stop keep allowed_split_points =
     (let stop_index =
            closest_allowed_split_point index
              (raw_stop_index index current_element_progress keep)
              allowed_split_points
      in if index < stop_index \<and> below_stop stop_index stop
         then Some (stop_index - 1, [], [], stop_index)
         else None)"

definition compute_split ::
  "int \<Rightarrow> rat \<Rightarrow> stop_bound \<Rightarrow> rat \<Rightarrow> int \<Rightarrow> int list
     \<Rightarrow> (rat \<Rightarrow> ('p list \<times> 'r list) option)
     \<Rightarrow> (int \<times> 'p list \<times> 'r list \<times> int) option" where
  "compute_split index current_element_progress stop fraction_of_remainder
       total_buffer_size allowed_split_points try_split =
     (let keep = keep_of index current_element_progress stop fraction_of_remainder
                   total_buffer_size
      in case split_in_element index current_element_progress keep
                allowed_split_points try_split of
           Some split \<Rightarrow> Some split
         | None \<Rightarrow>
             split_at_boundary index current_element_progress stop keep
               allowed_split_points)"

text \<open>
  The rule of the specification for the same choice, in its own words: below the first
  allowed point the first, above the last the last, otherwise the previous point when
  \<open>index < prev\<close> and \<open>stop_index - prev < next - stop_index\<close>, else the next point.
\<close>

definition nearest_allowed_split_point_spec :: "int \<Rightarrow> int \<Rightarrow> int list \<Rightarrow> int" where
  "nearest_allowed_split_point_spec index stop_index allowed_split_points =
     (let first_point = Min (set allowed_split_points);
          last_point = Max (set allowed_split_points)
      in if stop_index < first_point then first_point
         else if last_point < stop_index then last_point
         else (let prev = Max (set (filter (\<lambda>a. a < stop_index) allowed_split_points));
                   next = Min (set (filter (\<lambda>a. stop_index < a) allowed_split_points))
               in if index < prev \<and> stop_index - prev < next - stop_index
                  then prev else next))"

section \<open>DataInputOperation: position, decoding loop and split\<close>

type_synonym bytes = "8 word list"

record data_input_operation =
  index :: int
  stop :: stop_bound
  started :: bool

definition new_data_input_operation :: data_input_operation where
  "new_data_input_operation = \<lparr>index = - 1, stop = Unbounded, started = False\<rparr>"

definition start :: "data_input_operation \<Rightarrow> data_input_operation" where
  "start op = op\<lparr>started := True\<rparr>"

definition finish :: "data_input_operation \<Rightarrow> data_input_operation" where
  "finish op = op\<lparr>index := index op + 1, started := False\<rparr>"

definition reset :: "data_input_operation \<Rightarrow> data_input_operation" where
  "reset op = op\<lparr>index := - 1, stop := Unbounded\<rparr>"

definition at_stop :: "data_input_operation \<Rightarrow> bool" where
  "at_stop op = (case stop op of Unbounded \<Rightarrow> False | Bounded k \<Rightarrow> index op = k - 1)"

datatype 'v iteration = Return | Raise error | Output 'v bytes

definition process_encoded_iteration ::
  "(bytes \<Rightarrow> ('v \<times> bytes) option) \<Rightarrow> bytes \<Rightarrow> data_input_operation
     \<Rightarrow> 'v iteration \<times> data_input_operation" where
  "process_encoded_iteration decode_from_stream input_stream op =
     (if input_stream = [] then (Return, op)
      else if at_stop op then (Return, op)
      else (let op' = op\<lparr>index := index op + 1\<rparr>
            in case decode_from_stream input_stream of
                 None \<Rightarrow> (Raise ValueError, op')
               | Some (decoded_value, rest) \<Rightarrow> (Output decoded_value rest, op')))"

partial_function (option) process_encoded ::
  "(bytes \<Rightarrow> ('v \<times> bytes) option) \<Rightarrow> bytes \<Rightarrow> data_input_operation
     \<Rightarrow> (int \<times> 'v) list
     \<Rightarrow> ((error + unit) \<times> data_input_operation \<times> (int \<times> 'v) list) option" where
  "process_encoded decode_from_stream input_stream op outputs =
     (case process_encoded_iteration decode_from_stream input_stream op of
        (Return, op') \<Rightarrow> Some (Inr (), op', outputs)
      | (Raise e, op') \<Rightarrow> Some (Inl e, op', outputs)
      | (Output decoded_value rest, op') \<Rightarrow>
          process_encoded decode_from_stream rest op'
            (outputs @ [(index op', decoded_value)]))"

definition current_element_progress_of :: "data_input_operation \<Rightarrow> rat option \<Rightarrow> rat" where
  "current_element_progress_of op current_element_progress_object =
     (if index op = - 1 then 1
      else case current_element_progress_object of
             None \<Rightarrow> 1 / 2
           | Some fraction_completed \<Rightarrow> fraction_completed)"

definition try_split ::
  "rat \<Rightarrow> int \<Rightarrow> int list \<Rightarrow> rat option \<Rightarrow> (rat \<Rightarrow> ('p list \<times> 'r list) option)
     \<Rightarrow> data_input_operation
     \<Rightarrow> (int \<times> 'p list \<times> 'r list \<times> int) option \<times> data_input_operation" where
  "try_split fraction_of_remainder total_buffer_size allowed_split_points
       current_element_progress_object receiver_try_split op =
     (if \<not> started op then (None, op)
      else (let current_element_progress =
                  current_element_progress_of op current_element_progress_object;
                split = compute_split (index op) current_element_progress (stop op)
                          fraction_of_remainder total_buffer_size allowed_split_points
                          receiver_try_split
            in case split of
                 None \<Rightarrow> (None, op)
               | Some (primary_end, element_primaries, element_residuals, residual_start) \<Rightarrow>
                   (split, op\<lparr>stop := Bounded residual_start\<rparr>)))"

record 'v worker =
  operation :: data_input_operation
  input_stream :: "bytes option"
  outputs :: "(int \<times> 'v) list"
  raised :: bool

datatype ('p, 'r) event =
    Process_encoded bytes
  | Loop
  | Try_split rat int "int list" "rat option" "rat \<Rightarrow> ('p list \<times> 'r list) option"

fun exec ::
  "(bytes \<Rightarrow> ('v \<times> bytes) option) \<Rightarrow> ('p, 'r) event \<Rightarrow> 'v worker \<Rightarrow> 'v worker" where
  "exec decode_from_stream (Process_encoded encoded_windowed_values) w =
     (if input_stream w = None \<and> \<not> raised w
      then w\<lparr>input_stream := Some encoded_windowed_values\<rparr> else w)"
| "exec decode_from_stream Loop w =
     (case input_stream w of
        None \<Rightarrow> w
      | Some bs \<Rightarrow>
          (case process_encoded_iteration decode_from_stream bs (operation w) of
             (Return, op') \<Rightarrow> w\<lparr>operation := op', input_stream := None\<rparr>
           | (Raise e, op') \<Rightarrow> w\<lparr>operation := op', input_stream := None, raised := True\<rparr>
           | (Output decoded_value rest, op') \<Rightarrow>
               w\<lparr>operation := op', input_stream := Some rest,
                 outputs := outputs w @ [(index op', decoded_value)]\<rparr>))"
| "exec decode_from_stream (Try_split fraction_of_remainder total_buffer_size
       allowed_split_points current_element_progress_object receiver_try_split) w =
     w\<lparr>operation :=
         snd (try_split fraction_of_remainder total_buffer_size allowed_split_points
                current_element_progress_object receiver_try_split (operation w))\<rparr>"

definition run ::
  "(bytes \<Rightarrow> ('v \<times> bytes) option) \<Rightarrow> ('p, 'r) event list \<Rightarrow> 'v worker \<Rightarrow> 'v worker" where
  "run decode_from_stream events w = fold (exec decode_from_stream) events w"

definition started_worker :: "'v worker" where
  "started_worker =
     \<lparr>operation = start new_data_input_operation, input_stream = None, outputs = [],
      raised = False\<rparr>"

definition within_stop :: "data_input_operation \<Rightarrow> bool" where
  "within_stop op = below_stop (index op) (stop op)"

definition bounded_by :: "int \<Rightarrow> data_input_operation \<Rightarrow> bool" where
  "bounded_by k op = (within_stop op \<and> stop_le (stop op) (Bounded k))"

section \<open>RangeSet\<close>

text \<open>
  A \<open>RangeSet\<close> keeps the start points and the end points of its ranges \<open>[x, y)\<close> in two
  \<open>SortedList\<close>s. The operations of \<open>SortedList\<close> that it uses are embedded on sorted
  lists: \<open>bisect_left\<close> and \<open>bisect_right\<close> count the entries below (at most) the key,
  \<open>add\<close> is \<open>insort\<close>, \<open>del xs[i:j]\<close> is \<open>del_slice\<close> and an index out of range
  raises \<open>IndexError\<close>.
\<close>

record range_set =
  sorted_starts :: "int list"
  sorted_ends :: "int list"

definition bisect_left :: "int list \<Rightarrow> int \<Rightarrow> nat" where
  "bisect_left xs x = length (takeWhile (\<lambda>y. y < x) xs)"

definition bisect_right :: "int list \<Rightarrow> int \<Rightarrow> nat" where
  "bisect_right xs x = length (takeWhile (\<lambda>y. y \<le> x) xs)"

definition del_slice :: "nat \<Rightarrow> nat \<Rightarrow> 'a list \<Rightarrow> 'a list" where
  "del_slice i j xs = (if i < j then take i xs @ drop j xs else xs)"

definition getitem :: "'a list \<Rightarrow> nat \<Rightarrow> error + 'a" where
  "getitem xs i = (if i < length xs then Inr (xs ! i) else Inl IndexError)"

definition new_range_set :: range_set where
  "new_range_set = \<lparr>sorted_starts = [], sorted_ends = []\<rparr>"

text \<open>\<open>RangeSet.add\<close>, lines 701-724.\<close>

definition range_set_add :: "int \<Rightarrow> int \<Rightarrow> range_set \<Rightarrow> error + range_set" where
  "range_set_add start_point end_point rs =
     (if start_point \<ge> end_point then Inr rs
      else (let min_idx = bisect_left (sorted_ends rs) start_point;
                max_idx = bisect_right (sorted_starts rs) end_point
            in if min_idx \<ge> length (sorted_starts rs) \<or> max_idx \<le> 0 then
                 Inr \<lparr>sorted_starts = insort start_point (sorted_starts rs),
                      sorted_ends = insort end_point (sorted_ends rs)\<rparr>
               else (case getitem (sorted_starts rs) min_idx of
                       Inl e \<Rightarrow> Inl e
                     | Inr first_start \<Rightarrow>
                         (case getitem (sorted_ends rs) (max_idx - 1) of
                            Inl e \<Rightarrow> Inl e
                          | Inr last_end \<Rightarrow>
                              Inr \<lparr>sorted_starts =
                                     insort (min start_point first_start)
                                       (del_slice min_idx max_idx (sorted_starts rs)),
                                   sorted_ends =
                                     insort (max end_point last_end)
                                       (del_slice min_idx max_idx (sorted_ends rs))\<rparr>))))"

text \<open>\<open>RangeSet.__contains__\<close>, lines 726-729.\<close>

definition range_set_contains :: "int \<Rightarrow> range_set \<Rightarrow> error + bool" where
  "range_set_contains key rs =
     (let idx = bisect_left (sorted_starts rs) key
      in if idx < length (sorted_starts rs) \<and> sorted_starts rs ! idx = key then Inr True
         else if idx > 0 then
           (case getitem (sorted_ends rs) (idx - 1) of
              Inl e \<Rightarrow> Inl e
            | Inr previous_end \<Rightarrow> Inr (previous_end > key))
         else Inr False)"

text \<open>A sequence of \<open>add\<close> calls, stopping at the first one that raises.\<close>

fun range_set_add_all :: "(int \<times> int) list \<Rightarrow> range_set \<Rightarrow> error + range_set" where
  "range_set_add_all [] rs = Inr rs"
| "range_set_add_all ((start_point, end_point) # later) rs =
     (case range_set_add start_point end_point rs of
        Inl e \<Rightarrow> Inl e
      | Inr rs' \<Rightarrow> range_set_add_all later rs')"

text \<open>
  No two stored ranges touch or overlap: the two lists have one length, every stored range
  is not empty, and of two different stored ranges one ends strictly before the other
  starts. \<open>union_of\<close> is the set of points inside some added range.
\<close>

definition disjoint_and_not_adjacent :: "range_set \<Rightarrow> bool" where
  "disjoint_and_not_adjacent rs =
     (length (sorted_starts rs) = length (sorted_ends rs)
      \<and> (\<forall>i < length (sorted_starts rs). sorted_starts rs ! i < sorted_ends rs ! i)
      \<and> (\<forall>i < length (sorted_starts rs). \<forall>j < length (sorted_starts rs).
            i \<noteq> j \<longrightarrow> sorted_ends rs ! i < sorted_starts rs ! j
                      \<or> sorted_ends rs ! j < sorted_starts rs ! i))"

definition union_of :: "(int \<times> int) list \<Rightarrow> int set" where
  "union_of added = (\<Union>(a, b) \<in> set added. {a ..< b})"


text \<open>
  The same state as a list of pairs, for the proofs: \<open>separated\<close> says that every range is
  not empty and ends strictly before every later one starts, \<open>merged\<close> is the list of pairs
  that \<open>add\<close> produces from it, and \<open>covered\<close> the set of points inside some pair.
\<close>

fun separated :: "(int \<times> int) list \<Rightarrow> bool" where
  "separated [] = True"
| "separated ((s, e) # ps) = (s < e \<and> (\<forall>(s', e') \<in> set ps. e < s') \<and> separated ps)"

definition merged :: "int \<Rightarrow> int \<Rightarrow> (int \<times> int) list \<Rightarrow> (int \<times> int) list" where
  "merged a b ps =
     (let A = takeWhile (\<lambda>(s, e). e < a) ps;
          rest = dropWhile (\<lambda>(s, e). e < a) ps;
          B = takeWhile (\<lambda>(s, e). s \<le> b) rest;
          C = dropWhile (\<lambda>(s, e). s \<le> b) rest
      in A @ [(if B = [] then a else min a (fst (hd B)),
               if B = [] then b else max b (snd (last B)))] @ C)"

definition of_pairs :: "(int \<times> int) list \<Rightarrow> range_set" where
  "of_pairs ps = \<lparr>sorted_starts = map fst ps, sorted_ends = map snd ps\<rparr>"

definition covered :: "(int \<times> int) list \<Rightarrow> int set" where
  "covered ps = (\<Union>(s, e) \<in> set ps. {s ..< e})"

section \<open>The state service and the commit of bag, set and ordered-list state\<close>

text \<open>
  Modelled from the spec: the remote state service (\<open>CachingStateHandler\<close>, whose source is
  not part of the repository files at hand). It offers \<open>clear(key)\<close> and
  \<open>append(key, coder, values)\<close> (\<open>extend\<close> in the code), each answering a pending
  operation that must be awaited explicitly. A handler is the list of the requests issued
  so far, a pending operation is the position of its request in that list, \<open>awaited\<close>
  lists the pending operations whose \<open>get()\<close> has returned, and \<open>failing\<close> tells which
  requests the runner answers with an error, which \<open>get()\<close> raises.
\<close>

datatype ('k, 'v) state_request = Clear 'k | Extend 'k "'v list"

record ('k, 'v) state_handler =
  requests :: "('k, 'v) state_request list"
  awaited :: "nat list"
  failing :: "nat \<Rightarrow> bool"

definition handler_clear ::
  "'k \<Rightarrow> ('k, 'v) state_handler \<Rightarrow> nat \<times> ('k, 'v) state_handler" where
  "handler_clear state_key h =
     (length (requests h), h\<lparr>requests := requests h @ [Clear state_key]\<rparr>)"

definition handler_extend ::
  "'k \<Rightarrow> 'v list \<Rightarrow> ('k, 'v) state_handler \<Rightarrow> nat \<times> ('k, 'v) state_handler" where
  "handler_extend state_key elements h =
     (length (requests h), h\<lparr>requests := requests h @ [Extend state_key elements]\<rparr>)"

definition future_get :: "nat \<Rightarrow> ('k, 'v) state_handler \<Rightarrow> error + ('k, 'v) state_handler" where
  "future_get future h =
     (if failing h future then Inl RuntimeError
      else Inr (h\<lparr>awaited := awaited h @ [future]\<rparr>))"

text \<open>\<open>SynchronousBagRuntimeState\<close> and its \<open>commit\<close>, lines 623-632.\<close>

record ('k, 'v) bag_runtime_state =
  bag_state_key :: 'k
  bag_cleared :: bool
  bag_added_elements :: "'v list"

definition bag_commit ::
  "('k, 'v) bag_runtime_state \<Rightarrow> ('k, 'v) state_handler \<Rightarrow> error + ('k, 'v) state_handler" where
  "bag_commit b h =
     (let (to_await, h1) =
            (if bag_cleared b
             then (case handler_clear (bag_state_key b) h of (f, h') \<Rightarrow> (Some f, h'))
             else (None, h));
          (to_await, h2) =
            (if bag_added_elements b \<noteq> []
             then (case handler_extend (bag_state_key b) (bag_added_elements b) h1 of
                     (f, h') \<Rightarrow> (Some f, h'))
             else (to_await, h1))
      in case to_await of None \<Rightarrow> Inr h2 | Some f \<Rightarrow> future_get f h2)"

text \<open>\<open>SynchronousSetRuntimeState\<close>, lines 635-691. The Python set of added elements is a
  list without duplicates; its order stands for the iteration order of the set.\<close>

record ('k, 'v) set_runtime_state =
  set_state_key :: 'k
  set_cleared :: bool
  set_added_elements :: "'v list"

definition new_set_runtime_state :: "'k \<Rightarrow> ('k, 'v) set_runtime_state" where
  "new_set_runtime_state state_key =
     \<lparr>set_state_key = state_key, set_cleared = False, set_added_elements = []\<rparr>"

text \<open>\<open>_compact_data\<close>, lines 647-663. \<open>remote\<close> is what iterating the
  \<open>_StateBackedIterable\<close> gives at this call: the stored values, or the error that the read
  raises. It is iterated only when the object is not cleared. The pending operations of the
  clear and of the append are dropped, as in the code.\<close>

definition compact_data ::
  "error + 'v list \<Rightarrow> bool \<Rightarrow> ('k, 'v) set_runtime_state \<Rightarrow> ('k, 'v) state_handler
     \<Rightarrow> (error + 'v list) \<times> ('k, 'v) set_runtime_state \<times> ('k, 'v) state_handler" where
  "compact_data remote rewrite s h =
     (case (if set_cleared s then Inr [] else remote) of
        Inl e \<Rightarrow> (Inl e, s, h)
      | Inr stored \<Rightarrow>
          (let accumulator = remdups (stored @ set_added_elements s)
           in if rewrite \<and> accumulator \<noteq> []
              then (case handler_clear (set_state_key s) h of
                      (f1, h1) \<Rightarrow>
                        (case handler_extend (set_state_key s) accumulator h1 of
                           (f2, h2) \<Rightarrow>
                             (Inr accumulator, s\<lparr>set_added_elements := []\<rparr>, h2)))
              else (Inr accumulator, s, h)))"

text \<open>\<open>read\<close>, lines 665-666: it assigns no field of the object and sends nothing.\<close>

definition set_read ::
  "error + 'v list \<Rightarrow> ('k, 'v) set_runtime_state \<Rightarrow> ('k, 'v) state_handler \<Rightarrow> error + 'v list" where
  "set_read remote s h = fst (compact_data remote False s h)"

text \<open>\<open>add\<close>, lines 668-676. \<open>random\<close> is the draw of \<open>random.random()\<close>. The result is
  the error raised, if any, with the object and the handler as the call leaves them.\<close>

definition set_add ::
  "error + 'v list \<Rightarrow> rat \<Rightarrow> 'v \<Rightarrow> ('k, 'v) set_runtime_state \<Rightarrow> ('k, 'v) state_handler
     \<Rightarrow> error option \<times> ('k, 'v) set_runtime_state \<times> ('k, 'v) state_handler" where
  "set_add remote random value s h =
     (let (s1, h1) =
            (if set_cleared s
             then (s\<lparr>set_cleared := False\<rparr>, snd (handler_clear (set_state_key s) h))
             else (s, h));
          s2 = s1\<lparr>set_added_elements :=
                    (if value \<in> set (set_added_elements s1) then set_added_elements s1
                     else set_added_elements s1 @ [value])\<rparr>
      in if random > 1 / 2
         then (case compact_data remote True s2 h1 of
                 (Inl e, s3, h3) \<Rightarrow> (Some e, s3, h3)
               | (Inr accumulator, s3, h3) \<Rightarrow> (None, s3, h3))
         else (None, s2, h1))"

text \<open>\<open>clear\<close>, lines 678-680.\<close>

definition set_clear :: "('k, 'v) set_runtime_state \<Rightarrow> ('k, 'v) set_runtime_state" where
  "set_clear s = s\<lparr>set_cleared := True, set_added_elements := []\<rparr>"

text \<open>\<open>commit\<close>, lines 682-691. It assigns no field of the object.\<close>

definition set_commit ::
  "('k, 'v) set_runtime_state \<Rightarrow> ('k, 'v) state_handler \<Rightarrow> error + ('k, 'v) state_handler" where
  "set_commit s h =
     (let (to_await, h1) =
            (if set_cleared s
             then (case handler_clear (set_state_key s) h of (f, h') \<Rightarrow> (Some f, h'))
             else (None, h));
          (to_await, h2) =
            (if set_added_elements s \<noteq> []
             then (case handler_extend (set_state_key s) (set_added_elements s) h1 of
                     (f, h') \<Rightarrow> (Some f, h'))
             else (to_await, h1))
      in case to_await of None \<Rightarrow> Inr h2 | Some f \<Rightarrow> future_get f h2)"

text \<open>The calls that assign a field of a set state object (\<open>read\<close> and \<open>commit\<close> assign
  none), each \<open>add\<close> with its value, its random draw and what the state service answers to
  its read, and a sequence of such calls on an object. A call that raises leaves the object
  as it is at the raise, and the sequence goes on.\<close>

datatype 'v set_call = Set_add 'v rat "error + 'v list" | Set_clear

fun set_run ::
  "'v set_call list \<Rightarrow> ('k, 'v) set_runtime_state \<times> ('k, 'v) state_handler
     \<Rightarrow> ('k, 'v) set_runtime_state \<times> ('k, 'v) state_handler" where
  "set_run [] (s, h) = (s, h)"
| "set_run (Set_add value random remote # later) (s, h) =
     set_run later (snd (set_add remote random value s h))"
| "set_run (Set_clear # later) (s, h) = set_run later (set_clear s, h)"

text \<open>\<open>SynchronousOrderedListRuntimeState\<close> and its \<open>commit\<close>, lines 837-865. A clear is
  sent under a copy of the state key that carries the range; \<open>pending_adds\<close> is the
  \<open>SortedDict\<close> as a list of keys with their values, in key order. \<open>range_set_len\<close> is
  \<open>RangeSet.__len__\<close> with its assertion and \<open>range_set_iter\<close> is \<open>RangeSet.__iter__\<close>.\<close>

datatype 'k ordered_list_key = Whole_list 'k | Range_of_list 'k int int

record ('k, 'v) ordered_list_runtime_state =
  ordered_list_state_key :: 'k
  ordered_list_cleared :: bool
  pending_adds :: "(int \<times> 'v list) list"
  pending_removes :: range_set

definition range_set_len :: "range_set \<Rightarrow> error + nat" where
  "range_set_len rs =
     (if length (sorted_starts rs) = length (sorted_ends rs)
      then Inr (length (sorted_starts rs)) else Inl AssertionError)"

definition range_set_iter :: "range_set \<Rightarrow> (int \<times> int) list" where
  "range_set_iter rs = zip (sorted_starts rs) (sorted_ends rs)"

fun clear_ranges ::
  "'k \<Rightarrow> (int \<times> int) list \<Rightarrow> nat list \<Rightarrow> ('k ordered_list_key, 'v) state_handler
     \<Rightarrow> nat list \<times> ('k ordered_list_key, 'v) state_handler" where
  "clear_ranges state_key [] futures h = (futures, h)"
| "clear_ranges state_key ((range_start, range_end) # later) futures h =
     (case handler_clear (Range_of_list state_key range_start range_end) h of
        (f, h') \<Rightarrow> clear_ranges state_key later (futures @ [f]) h')"

fun await_all :: "nat list \<Rightarrow> ('k, 'v) state_handler \<Rightarrow> error + ('k, 'v) state_handler" where
  "await_all [] h = Inr h"
| "await_all (to_await # later) h =
     (case future_get to_await h of
        Inl e \<Rightarrow> Inl e
      | Inr h' \<Rightarrow> await_all later h')"

definition items_to_add :: "(int \<times> 'v list) list \<Rightarrow> (int \<times> 'v) list" where
  "items_to_add adds = concat (map (\<lambda>(k, values). map (Pair k) values) adds)"

definition ordered_list_commit ::
  "('k, 'v) ordered_list_runtime_state \<Rightarrow> ('k ordered_list_key, int \<times> 'v) state_handler
     \<Rightarrow> error + ('k, 'v) ordered_list_runtime_state
                \<times> ('k ordered_list_key, int \<times> 'v) state_handler" where
  "ordered_list_commit s h =
     (case range_set_len (pending_removes s) of
        Inl e \<Rightarrow> Inl e
      | Inr n \<Rightarrow>
          (let (futures, h1, s1) =
                 (if n \<noteq> 0
                  then (case clear_ranges (ordered_list_state_key s)
                               (range_set_iter (pending_removes s)) [] h of
                          (fs, h') \<Rightarrow> (fs, h', s\<lparr>pending_removes := new_range_set\<rparr>))
                  else ([], h, s));
               (futures, h2, s2) =
                 (if pending_adds s1 \<noteq> []
                  then (case handler_extend (Whole_list (ordered_list_state_key s1))
                               (items_to_add (pending_adds s1)) h1 of
                          (f, h') \<Rightarrow> (futures @ [f], h', s1\<lparr>pending_adds := []\<rparr>))
                  else (futures, h1, s1))
           in case await_all futures h2 of
                Inl e \<Rightarrow> Inl e
              | Inr h3 \<Rightarrow> Inr (s2\<lparr>ordered_list_cleared := False\<rparr>, h3)))"

definition new_state_handler :: "('k, 'v) state_handler" where
  "new_state_handler = \<lparr>requests = [], awaited = [], failing = (\<lambda>_. False)\<rparr>"

text \<open>The futures that the requests issued between two states of the handler got, and
  whether all of them were awaited.\<close>

definition issued_between :: "('k, 'v) state_handler \<Rightarrow> ('k, 'v) state_handler \<Rightarrow> nat list" where
  "issued_between h h' = [length (requests h) ..< length (requests h')]"

definition awaits_every_issued :: "('k, 'v) state_handler \<Rightarrow> ('k, 'v) state_handler \<Rightarrow> bool" where
  "awaits_every_issued h h' = (\<forall>f \<in> set (issued_between h h'). f \<in> set (awaited h'))"

section \<open>CombiningValueRuntimeState\<close>

text \<open>
  The bag operations that the combining value uses (lines 609-621). \<open>remote\<close> is what the
  state service answers when the bag's key is read; nothing is sent to the service before
  \<open>commit\<close>, so it is the same list through a bundle.
\<close>

definition bag_read :: "'v list \<Rightarrow> ('k, 'v) bag_runtime_state \<Rightarrow> 'v list" where
  "bag_read remote b = (if bag_cleared b then [] else remote) @ bag_added_elements b"

definition bag_add :: "'v \<Rightarrow> ('k, 'v) bag_runtime_state \<Rightarrow> ('k, 'v) bag_runtime_state" where
  "bag_add value b = b\<lparr>bag_added_elements := bag_added_elements b @ [value]\<rparr>"

definition bag_clear :: "('k, 'v) bag_runtime_state \<Rightarrow> ('k, 'v) bag_runtime_state" where
  "bag_clear b = b\<lparr>bag_cleared := True, bag_added_elements := []\<rparr>"

text \<open>The user's \<open>CombineFn\<close>, an opaque object with four methods.\<close>

record ('v, 'acc, 'out) combine_fn =
  create_accumulator :: 'acc
  add_input :: "'acc \<Rightarrow> 'v \<Rightarrow> 'acc"
  merge_accumulators :: "'acc list \<Rightarrow> 'acc"
  extract_output :: "'acc \<Rightarrow> 'out"

record ('k, 'acc) combining_value_runtime_state =
  underlying_bag_state :: "('k, 'acc) bag_runtime_state"
  finalized :: bool

text \<open>Lines 543-564. The draw of \<open>random.random()\<close> in \<open>add\<close> is a parameter of the
  call.\<close>

definition read_accumulator ::
  "('v, 'acc, 'out) combine_fn \<Rightarrow> 'acc list \<Rightarrow> bool \<Rightarrow> ('k, 'acc) combining_value_runtime_state
     \<Rightarrow> 'acc \<times> ('k, 'acc) combining_value_runtime_state" where
  "read_accumulator combinefn remote rewrite cv =
     (let merged_accumulator =
            merge_accumulators combinefn (bag_read remote (underlying_bag_state cv))
      in (merged_accumulator,
          if rewrite
          then cv\<lparr>underlying_bag_state :=
                    bag_add merged_accumulator (bag_clear (underlying_bag_state cv))\<rparr>
          else cv))"

definition combining_value_read ::
  "('v, 'acc, 'out) combine_fn \<Rightarrow> 'acc list \<Rightarrow> ('k, 'acc) combining_value_runtime_state
     \<Rightarrow> 'out \<times> ('k, 'acc) combining_value_runtime_state" where
  "combining_value_read combinefn remote cv =
     (case read_accumulator combinefn remote True cv of
        (accumulator, cv') \<Rightarrow> (extract_output combinefn accumulator, cv'))"

definition combining_value_add ::
  "('v, 'acc, 'out) combine_fn \<Rightarrow> 'acc list \<Rightarrow> rat \<Rightarrow> 'v
     \<Rightarrow> ('k, 'acc) combining_value_runtime_state \<Rightarrow> ('k, 'acc) combining_value_runtime_state" where
  "combining_value_add combinefn remote random value cv =
     (let (accumulator, cv1) =
            (if random < 1 / 2
             then (case read_accumulator combinefn remote False cv of
                     (acc, cv') \<Rightarrow>
                       (acc, cv'\<lparr>underlying_bag_state := bag_clear (underlying_bag_state cv')\<rparr>))
             else (create_accumulator combinefn, cv))
      in cv1\<lparr>underlying_bag_state :=
               bag_add (add_input combinefn accumulator value) (underlying_bag_state cv1)\<rparr>)"

datatype 'v combining_value_call = Add_call 'v rat | Read_call

fun combining_value_run ::
  "('v, 'acc, 'out) combine_fn \<Rightarrow> 'acc list \<Rightarrow> 'v combining_value_call list
     \<Rightarrow> ('k, 'acc) combining_value_runtime_state
     \<Rightarrow> 'out list \<times> ('k, 'acc) combining_value_runtime_state" where
  "combining_value_run combinefn remote [] cv = ([], cv)"
| "combining_value_run combinefn remote (Add_call value random # later) cv =
     combining_value_run combinefn remote later
       (combining_value_add combinefn remote random value cv)"
| "combining_value_run combinefn remote (Read_call # later) cv =
     (case combining_value_read combinefn remote cv of
        (out, cv') \<Rightarrow>
          (case combining_value_run combinefn remote later cv' of
             (outs, cv'') \<Rightarrow> (out # outs, cv'')))"

text \<open>
  The contract of a \<open>CombineFn\<close> as far as it is needed: adding an input to a merged
  accumulator is merging one more accumulator that holds the input alone, and a merge
  may be done in stages. \<open>merged_outputs\<close> is the specification of the outputs of the
  \<open>read\<close> calls: the output extracted from the merge of what the bag held at first and one
  accumulator for each value added so far.
\<close>

definition algebraic_contract :: "('v, 'acc, 'out) combine_fn \<Rightarrow> bool" where
  "algebraic_contract combinefn =
     ((\<forall>accs value.
         add_input combinefn (merge_accumulators combinefn accs) value
           = merge_accumulators combinefn
               (accs @ [add_input combinefn (create_accumulator combinefn) value]))
      \<and> (\<forall>accs more.
            merge_accumulators combinefn (merge_accumulators combinefn accs # more)
              = merge_accumulators combinefn (accs @ more)))"

fun merged_outputs ::
  "('v, 'acc, 'out) combine_fn \<Rightarrow> 'acc list \<Rightarrow> 'v combining_value_call list \<Rightarrow> 'out list" where
  "merged_outputs combinefn accs [] = []"
| "merged_outputs combinefn accs (Add_call value random # later) =
     merged_outputs combinefn
       (accs @ [add_input combinefn (create_accumulator combinefn) value]) later"
| "merged_outputs combinefn accs (Read_call # later) =
     extract_output combinefn (merge_accumulators combinefn accs)
       # merged_outputs combinefn accs later"

definition sum_combine_fn :: "(int, int, int) combine_fn" where
  "sum_combine_fn =
     \<lparr>create_accumulator = 0, add_input = (+), merge_accumulators = sum_list,
      extract_output = id\<rparr>"

section \<open>BundleProcessor: the execution tree and process_bundle\<close>

text \<open>
  The stage description as far as \<open>create_execution_tree\<close> reads it: the transforms in
  the order in which the descriptor lists them, each with its input and output
  collections by tag, and for a ParDo the tags that are side inputs.
\<close>

record transform_proto =
  urn_is_par_do :: bool
  payload_side_inputs :: "string list"
  transform_inputs :: "(string \<times> string) list"
  transform_outputs :: "(string \<times> string) list"

record process_bundle_descriptor =
  transforms :: "(string \<times> transform_proto) list"

text \<open>Lines 1153-1163: the consumers of a collection, side inputs left out.\<close>

definition is_side_input :: "transform_proto \<Rightarrow> string \<Rightarrow> bool" where
  "is_side_input transform_proto tag =
     (urn_is_par_do transform_proto \<and> tag \<in> set (payload_side_inputs transform_proto))"

definition pcoll_consumers :: "process_bundle_descriptor \<Rightarrow> string \<Rightarrow> string list" where
  "pcoll_consumers descriptor pcoll =
     concat (map (\<lambda>(transform_id, transform_proto).
                    concat (map (\<lambda>(tag, pcoll_id).
                                   if \<not> is_side_input transform_proto tag \<and> pcoll_id = pcoll
                                   then [transform_id] else [])
                              (transform_inputs transform_proto)))
               (transforms descriptor))"

definition consumers_of :: "process_bundle_descriptor \<Rightarrow> string \<Rightarrow> string list option" where
  "consumers_of descriptor transform_id =
     (case map_of (transforms descriptor) transform_id of
        None \<Rightarrow> None
      | Some transform_proto \<Rightarrow>
          Some (concat (map (\<lambda>(tag, pcoll). pcoll_consumers descriptor pcoll)
                          (transform_outputs transform_proto))))"

text \<open>
  Lines 1182-1188. The recursion of \<open>topological_height\<close> runs on fuel: \<open>None\<close> stands
  for a call that does not return a height (the recursion never ends on a cyclic
  description, and a consumer that is not a transform raises).
\<close>

fun topological_height :: "nat \<Rightarrow> process_bundle_descriptor \<Rightarrow> string \<Rightarrow> nat option" where
  "topological_height 0 descriptor transform_id = None"
| "topological_height (Suc fuel) descriptor transform_id =
     (case consumers_of descriptor transform_id of
        None \<Rightarrow> None
      | Some consumers \<Rightarrow>
          (case those (map (topological_height fuel descriptor) consumers) of
             None \<Rightarrow> None
           | Some heights \<Rightarrow> Some (1 + fold max heights 0)))"

text \<open>Lines 1190-1194: the transforms sorted by height, highest first; the sort is
  stable. An operation is named by its transform.\<close>

definition create_execution_tree :: "nat \<Rightarrow> process_bundle_descriptor \<Rightarrow> string list option" where
  "create_execution_tree fuel descriptor =
     (let transform_ids = map fst (transforms descriptor)
      in case those (map (topological_height fuel descriptor) transform_ids) of
           None \<Rightarrow> None
         | Some heights \<Rightarrow>
             Some (map fst (sort_key (\<lambda>(transform_id, height). - int height)
                              (zip transform_ids heights))))"

text \<open>
  The operations are opaque: \<open>process_bundle\<close> is embedded by the calls it makes on them,
  in order, and \<open>raises\<close> tells which call raises what. \<open>calls\<close> is the log of these calls.
\<close>

datatype op_kind = Data_input_operation | Data_output_operation | Other_operation

datatype element = Timers string string "bytes list" | Data string bytes

datatype call =
    Set_output_stream string
  | Start string
  | Process_timer string string bytes
  | Process_encoded_call string bytes
  | Finish string
  | Close_timer_output_stream string string

record bundle_processor =
  ops :: "string list"
  op_kind_of :: "string \<Rightarrow> op_kind"
  timers_info :: "(string \<times> string) list"
  current_instruction_id :: "string option"
  calls :: "call list"

fun run_calls :: "(call \<Rightarrow> error option) \<Rightarrow> call list \<Rightarrow> call list \<times> error option" where
  "run_calls raises [] = ([], None)"
| "run_calls raises (c # later) =
     (case raises c of
        Some e \<Rightarrow> ([c], Some e)
      | None \<Rightarrow> (case run_calls raises later of (done, r) \<Rightarrow> (c # done, r)))"

fun dispatch :: "element \<Rightarrow> call list" where
  "dispatch (Timers transform_id timer_family_id timers) =
     map (Process_timer transform_id timer_family_id) timers"
| "dispatch (Data transform_id data) = [Process_encoded_call transform_id data]"

text \<open>Lines 1203-1300 of \<open>process_bundle\<close>.\<close>

definition process_bundle ::
  "string \<Rightarrow> element list \<Rightarrow> (call \<Rightarrow> error option) \<Rightarrow> bundle_processor
     \<Rightarrow> (error + unit) \<times> bundle_processor" where
  "process_bundle instruction_id input_elements raises bp =
     (case run_calls raises
             (map Set_output_stream
                (filter (\<lambda>op. op_kind_of bp op = Data_output_operation) (ops bp))) of
        (before, Some e) \<Rightarrow> (Inl e, bp\<lparr>calls := calls bp @ before\<rparr>)
      | (before, None) \<Rightarrow>
          (let bp1 = bp\<lparr>current_instruction_id := Some instruction_id\<rparr>;
               (done, r) =
                 run_calls raises
                   (map Start (rev (ops bp1))
                    @ concat (map dispatch input_elements)
                    @ map Finish (ops bp1)
                    @ map (\<lambda>(transform_id, timer_family_id).
                             Close_timer_output_stream transform_id timer_family_id)
                        (timers_info bp1))
           in (case r of Some e \<Rightarrow> Inl e | None \<Rightarrow> Inr (),
               bp1\<lparr>current_instruction_id := None, calls := calls bp @ before @ done\<rparr>)))"

text \<open>The operations started and finished by a list of calls, in order; the height of
  a transform (0 where none is computed); the two orders on lists of heights.\<close>

fun started_ops :: "call list \<Rightarrow> string list" where
  "started_ops [] = []"
| "started_ops (Start op # later) = op # started_ops later"
| "started_ops (_ # later) = started_ops later"

fun finished_ops :: "call list \<Rightarrow> string list" where
  "finished_ops [] = []"
| "finished_ops (Finish op # later) = op # finished_ops later"
| "finished_ops (_ # later) = finished_ops later"

definition height_of :: "nat \<Rightarrow> process_bundle_descriptor \<Rightarrow> string \<Rightarrow> nat" where
  "height_of fuel descriptor transform_id =
     (case topological_height fuel descriptor transform_id of None \<Rightarrow> 0 | Some h \<Rightarrow> h)"

definition ascending :: "nat list \<Rightarrow> bool" where
  "ascending hs = sorted hs"

definition descending :: "nat list \<Rightarrow> bool" where
  "descending hs = sorted (rev hs)"

text \<open>A description with two transforms, a processor for it, and operations that never
  raise.\<close>

definition source_to_sink :: process_bundle_descriptor where
  "source_to_sink =
     \<lparr>transforms =
        [(''source'', \<lparr>urn_is_par_do = False, payload_side_inputs = [],
                      transform_inputs = [], transform_outputs = [(''out'', ''pc'')]\<rparr>),
         (''sink'', \<lparr>urn_is_par_do = False, payload_side_inputs = [],
                    transform_inputs = [(''in'', ''pc'')], transform_outputs = []\<rparr>)]\<rparr>"


definition never_raises :: "call \<Rightarrow> error option" where
  "never_raises c = None"

definition two_ops :: "string option \<Rightarrow> bundle_processor" where
  "two_ops current =
     \<lparr>ops = [''source'', ''sink''], op_kind_of = (\<lambda>op. Other_operation), timers_info = [],
      current_instruction_id = current, calls = []\<rparr>"

text \<open>The calls of the body of a bundle, and what a prefix of them starts and finishes.\<close>

definition body_calls :: "string list \<Rightarrow> element list \<Rightarrow> (string \<times> string) list \<Rightarrow> call list" where
  "body_calls os els ts =
     map Start (rev os) @ concat (map dispatch els) @ map Finish os
     @ map (\<lambda>(transform_id, timer_family_id).
              Close_timer_output_stream transform_id timer_family_id) ts"

section \<open>The multimap side-input view\<close>

text \<open>
  \<open>MultiMap.__getitem__\<close>, lines 443-488. The iterable that the state service serves for
  the bulk read either ends, or raises, or gives a pair of a key and its values.
  A view is either values held in memory or a \<open>_StateBackedIterable\<close> for the key, which
  reads the state service when iterated.
\<close>

datatype 'a iterable = Exhausted | Broken | Next 'a "'a iterable"

datatype bulk_read = Fully | Partially

datatype ('k, 'v) view = Values "'v list" | State_backed_iterable 'k

record ('k, 'v) multi_map =
  bulk_read :: "bulk_read option"
  cache :: "'k \<Rightarrow> ('k, 'v) view option"

definition BULK_READ_LIMIT :: nat where
  "BULK_READ_LIMIT = 100"

fun bulk_read_loop ::
  "nat \<Rightarrow> ('k \<times> 'v list) iterable \<Rightarrow> ('k \<Rightarrow> ('k, 'v) view option)
     \<Rightarrow> bulk_read \<times> ('k \<Rightarrow> ('k, 'v) view option)" where
  "bulk_read_loop ix Exhausted entries = (Fully, entries)"
| "bulk_read_loop ix Broken entries = (Partially, entries)"
| "bulk_read_loop ix (Next (k, vs) later) entries =
     (let entries' = entries(k \<mapsto> Values vs)
      in if ix > BULK_READ_LIMIT then (Partially, entries')
         else bulk_read_loop (Suc ix) later entries')"

definition multi_map_getitem ::
  "bool \<Rightarrow> ('k \<times> 'v list) iterable \<Rightarrow> 'k \<Rightarrow> ('k, 'v) multi_map
     \<Rightarrow> ('k, 'v) view \<times> ('k, 'v) multi_map" where
  "multi_map_getitem use_bulk_read key_values key m =
     (let m1 = (if use_bulk_read \<and> bulk_read m = None
                then (case bulk_read_loop 0 key_values (cache m) of
                        (status, cache') \<Rightarrow> m\<lparr>bulk_read := Some status, cache := cache'\<rparr>)
                else m)
      in if use_bulk_read \<and> bulk_read m1 = Some Fully
         then (case cache m1 key of None \<Rightarrow> Values [] | Some v \<Rightarrow> v, m1)
         else (case cache m1 key of
                 None \<Rightarrow> (State_backed_iterable key,
                           m1\<lparr>cache := (cache m1)(key \<mapsto> State_backed_iterable key)\<rparr>)
               | Some v \<Rightarrow> (v, m1)))"

definition new_multi_map :: "('k, 'v) multi_map" where
  "new_multi_map = \<lparr>bulk_read = None, cache = (\<lambda>k. None)\<rparr>"

definition iterable_of :: "'a list \<Rightarrow> 'a iterable" where
  "iterable_of items = foldr Next items Exhausted"

definition numbered_pairs :: "nat \<Rightarrow> (nat \<times> nat list) list" where
  "numbered_pairs n = map (\<lambda>i. (i, [i])) [0 ..< n]"

section \<open>The split computation on the spec's inputs\<close>

lemma py_round_of_int: "py_round (of_int n) = n"
  by (simp add: py_round_def)

lemma py_round_numeral: "py_round (numeral n) = numeral n"
  using py_round_of_int [of "numeral n"] by simp

lemma compute_split_half_of_ten_aux:
  "compute_split (- 1) 1 Unbounded (1 / 2) 10 [] ts = Some (4, [], [], 5)"
  by (simp add: compute_split_def keep_of_def clamp_total_buffer_size_def split_in_element_def
      split_at_boundary_def raw_stop_index_def closest_allowed_split_point_def
      py_round_numeral)

lemma keep_of_half_of_ten: "keep_of (- 1) 1 Unbounded (1 / 2) 10 = 5"
  by (simp add: keep_of_def clamp_total_buffer_size_def)

text \<open>
  Claim C2. With \<open>index = -1\<close>, \<open>current_element_progress = 1.0\<close>, \<open>stop\<close> unbounded,
  \<open>fraction_of_remainder = 0.5\<close>, \<open>total_buffer_size = 10\<close> and no allowed split points,
  the split computation returns the boundary split \<open>(4, [], [], 5)\<close>, whatever the
  receiver's element split function is.
\<close>

theorem compute_split_half_of_ten:
  "compute_split (- 1) 1 Unbounded (1 / 2) 10 [] receiver_try_split = Some (4, [], [], 5)"
  by (simp add: compute_split_def keep_of_half_of_ten split_in_element_def
      split_at_boundary_def raw_stop_index_def closest_allowed_split_point_def
      py_round_numeral)

lemma sorted_hd_Min: "sorted xs \<Longrightarrow> xs \<noteq> [] \<Longrightarrow> hd xs = Min (set xs)"
  by (cases xs) (auto intro!: Min_eqI [symmetric])

lemma sorted_last_Max: "sorted xs \<Longrightarrow> xs \<noteq> [] \<Longrightarrow> last xs = Max (set xs)"
  by (induction xs) (auto simp: max_def intro: Max_eqI [symmetric] dest: last_in_set)

lemma sorted_takeWhile_le_filter:
  "sorted xs \<Longrightarrow> takeWhile (\<lambda>y. y \<le> (s::int)) xs = filter (\<lambda>y. y \<le> s) xs"
proof (induction xs)
  case (Cons a xs)
  show ?case
  proof (cases "a \<le> s")
    case True
    then show ?thesis using Cons by simp
  next
    case False
    then have "\<forall>x\<in>set xs. \<not> x \<le> s" using Cons.prems by fastforce
    then have "filter (\<lambda>y. y \<le> s) xs = []" by (simp add: filter_empty_conv)
    then show ?thesis using False by simp
  qed
qed simp

lemma sorted_dropWhile_le_filter:
  "sorted xs \<Longrightarrow> dropWhile (\<lambda>y. y \<le> (s::int)) xs = filter (\<lambda>y. s < y) xs"
proof (induction xs)
  case (Cons a xs)
  show ?case
  proof (cases "a \<le> s")
    case True
    then show ?thesis using Cons by simp
  next
    case False
    then have "\<forall>x\<in>set xs. s < x" using Cons.prems by fastforce
    then have "filter (\<lambda>y. s < y) xs = xs" by (simp add: filter_id_conv)
    then show ?thesis using False by simp
  qed
qed simp

lemma closest_allowed_split_point_rule:
  assumes ne: "allowed \<noteq> []" and notin: "stop_index \<notin> set allowed"
  shows "closest_allowed_split_point i stop_index allowed
           = nearest_allowed_split_point_spec i stop_index allowed"
proof -
  define xs where "xs = sort allowed"
  define lo where "lo = takeWhile (\<lambda>y. y \<le> stop_index) xs"
  define hi where "hi = dropWhile (\<lambda>y. y \<le> stop_index) xs"
  have sx: "sorted xs" and setx: "set xs = set allowed" and xne: "xs \<noteq> []"
    using ne by (auto simp: xs_def simp flip: set_empty)
  have split: "xs = lo @ hi" by (simp add: lo_def hi_def)
  have lo_f: "lo = filter (\<lambda>y. y \<le> stop_index) xs"
    unfolding lo_def by (rule sorted_takeWhile_le_filter [OF sx])
  have hi_f: "hi = filter (\<lambda>y. stop_index < y) xs"
    unfolding hi_def by (rule sorted_dropWhile_le_filter [OF sx])
  have slo: "sorted lo" and shi: "sorted hi"
    using sx split by (metis sorted_append)+
  have set_lo: "set lo = set (filter (\<lambda>a. a < stop_index) allowed)"
    using notin setx by (auto simp: lo_f order_less_le)
  have set_hi: "set hi = set (filter (\<lambda>a. stop_index < a) allowed)"
    using setx by (auto simp: hi_f)
  have cl: "bisect xs stop_index = length lo" by (simp add: bisect_def lo_def)
  have Min_x: "Min (set allowed) = hd xs" using sorted_hd_Min [OF sx xne] setx by simp
  have Max_x: "Max (set allowed) = last xs" using sorted_last_Max [OF sx xne] setx by simp
  show ?thesis
  proof (cases "lo = []")
    case True
    then have "hi = xs" using split by simp
    then have "hd xs \<in> set hi" using xne by simp
    then have "stop_index < hd xs" unfolding hi_f by simp
    then show ?thesis using True ne notin Min_x xne
      by (simp add: closest_allowed_split_point_def nearest_allowed_split_point_spec_def
          Let_def cl xs_def [symmetric] hd_conv_nth)
  next
    case lne: False
    then have "last lo \<in> set lo" "hd lo \<in> set lo" by simp_all
    then have lo_last: "last lo < stop_index" and "hd lo < stop_index"
      unfolding set_lo by simp_all
    then have hd_le: "hd xs < stop_index"
      using lne split by simp
    show ?thesis
    proof (cases "hi = []")
      case True
      then have "lo = xs" using split by simp
      then have "last xs < stop_index" using lo_last by simp
      then show ?thesis using True ne notin Min_x Max_x xne hd_le lne \<open>lo = xs\<close>
        by (simp add: closest_allowed_split_point_def nearest_allowed_split_point_spec_def
            Let_def cl xs_def [symmetric])
    next
      case hne: False
      have "hd hi \<in> set hi" "last hi \<in> set hi" using hne by simp_all
      then have hi_hd: "stop_index < hd hi" and hi_last: "stop_index < last hi"
        unfolding set_hi by simp_all
      have "last xs = last hi" using split hne by simp
      then have last_gt: "stop_index < last xs" using hi_last by simp
      have prev: "xs ! (length lo - 1) = Max (set (filter (\<lambda>a. a < stop_index) allowed))"
        using sorted_last_Max [OF slo lne] set_lo lne split
        by (simp add: last_conv_nth nth_append)
      have nxt: "xs ! length lo = Min (set (filter (\<lambda>a. stop_index < a) allowed))"
        using sorted_hd_Min [OF shi hne] set_hi hne split
        by (simp add: hd_conv_nth nth_append)
      have len: "length lo \<noteq> length xs" "length lo \<noteq> 0" using split hne lne by auto
      show ?thesis using ne notin Min_x Max_x hd_le last_gt len prev nxt
        by (simp add: closest_allowed_split_point_def nearest_allowed_split_point_spec_def
            Let_def cl xs_def [symmetric])
    qed
  qed
qed

text \<open>
  Claim C3. When \<open>allowed_split_points\<close> is not empty and the candidate \<open>stop_index\<close>
  is not one of them, the split computation moves the candidate to an allowed point by the
  rule of the specification (first point below the first, last point above the last,
  otherwise the previous point only when \<open>index < prev\<close> and
  \<open>stop_index - prev < next - stop_index\<close>, else the next point), and, when no split
  inside the current element is returned, answers the boundary split at that point if it
  lies strictly between \<open>index\<close> and \<open>stop\<close>. For the allowed points 2 and 7 and the
  candidate 5 the result is 7.
\<close>

theorem compute_split_snaps_to_allowed_point:
  assumes "allowed \<noteq> []"
    and "raw_stop_index i p (keep_of i p s f t) \<notin> set allowed"
    and "split_in_element i p (keep_of i p s f t) allowed ts = None"
  shows "closest_allowed_split_point i (raw_stop_index i p (keep_of i p s f t)) allowed
           = nearest_allowed_split_point_spec i (raw_stop_index i p (keep_of i p s f t)) allowed
         \<and> compute_split i p s f t allowed ts
           = (let stop_index =
                    nearest_allowed_split_point_spec i
                      (raw_stop_index i p (keep_of i p s f t)) allowed
              in if i < stop_index \<and> below_stop stop_index s
                 then Some (stop_index - 1, [], [], stop_index) else None)"
  using assms(3) closest_allowed_split_point_rule [OF assms(1,2), of i]
  by (simp add: compute_split_def split_at_boundary_def Let_def)

theorem compute_split_snaps_to_allowed_point_witness:
  "[2, 7] \<noteq> ([] :: int list)
   \<and> raw_stop_index (- 1) 1 (keep_of (- 1) 1 Unbounded (1 / 2) 10) = 5
   \<and> 5 \<notin> set [2, 7 :: int]
   \<and> split_in_element (- 1) 1 (keep_of (- 1) 1 Unbounded (1 / 2) 10) [2, 7]
         (\<lambda>_. None :: (unit list \<times> unit list) option) = None
   \<and> closest_allowed_split_point (- 1) 5 [2, 7] = 7
   \<and> compute_split (- 1) 1 Unbounded (1 / 2) 10 [2, 7]
         (\<lambda>_. None :: (unit list \<times> unit list) option) = Some (6, [], [], 7)"
proof -
  have raw: "raw_stop_index (- 1) 1 (keep_of (- 1) 1 Unbounded (1 / 2) 10) = 5"
    by (simp add: raw_stop_index_def keep_of_half_of_ten py_round_numeral)
  have ne: "[2, 7] \<noteq> ([] :: int list)" by simp
  have notin: "raw_stop_index (- 1) 1 (keep_of (- 1) 1 Unbounded (1 / 2) 10) \<notin> set [2, 7]"
    by (simp add: raw)
  have el: "split_in_element (- 1) 1 (keep_of (- 1) 1 Unbounded (1 / 2) 10) [2, 7]
              (\<lambda>_. None :: (unit list \<times> unit list) option) = None"
    by (simp add: split_in_element_def)
  have spec: "nearest_allowed_split_point_spec (- 1) 5 [2, 7] = 7"
    by (simp add: nearest_allowed_split_point_spec_def)
  show ?thesis
    using compute_split_snaps_to_allowed_point [OF ne notin el] raw el spec by simp
qed

section \<open>The position of a DataInputOperation under splits\<close>

lemma split_in_element_Some:
  "split_in_element i p k a ts = Some (pe, ps, rs, rstart) \<Longrightarrow> rstart = i + 1"
  by (auto simp: split_in_element_def Let_def split: if_splits option.splits)

lemma split_at_boundary_Some:
  "split_at_boundary i p s k a = Some (pe, ps, rs, rstart)
     \<Longrightarrow> i < rstart \<and> below_stop rstart s \<and> pe = rstart - 1 \<and> ps = [] \<and> rs = []"
  by (auto simp: split_at_boundary_def Let_def split: if_splits)

lemma compute_split_Some:
  assumes "compute_split i p s f t a ts = Some (pe, ps, rs, rstart)"
  shows "i < rstart"
    and "split_in_element i p (keep_of i p s f t) a ts = None \<Longrightarrow> below_stop rstart s"
    and "split_in_element i p (keep_of i p s f t) a ts \<noteq> None \<Longrightarrow> rstart = i + 1"
  using assms split_in_element_Some [of i p "keep_of i p s f t" a ts pe ps rs rstart]
    split_at_boundary_Some [of i p s "keep_of i p s f t" a pe ps rs rstart]
  by (auto simp: compute_split_def Let_def split: option.splits)

lemma try_split_None:
  "try_split f t a po ts op = (None, op') \<Longrightarrow> op' = op"
  by (auto simp: try_split_def Let_def split: if_splits option.splits)

lemma try_split_Some:
  assumes "try_split f t a po ts op = (Some (pe, ps, rs, k), op')"
  shows "op' = op\<lparr>stop := Bounded k\<rparr>" and "index op < k" and "started op"
    and "compute_split (index op) (current_element_progress_of op po) (stop op) f t a ts
           = Some (pe, ps, rs, k)"
  using assms compute_split_Some(1) [of "index op" _ "stop op" f t a ts pe ps rs k]
  by (auto simp: try_split_def Let_def split: if_splits option.splits)


lemma stop_le_refl [simp]: "stop_le s s"
  by (cases s) simp_all

lemma stop_le_trans: "stop_le a b \<Longrightarrow> stop_le b c \<Longrightarrow> stop_le a c"
  by (cases a; cases b; cases c) simp_all

lemma below_stop_next:
  "below_stop i s \<Longrightarrow> stop_le (Bounded (i + 1)) s"
  by (cases s) simp_all

lemma below_stop_less: "below_stop k s \<Longrightarrow> stop_less (Bounded k) s"
  by (cases s) simp_all

lemma stop_less_le: "stop_less a b \<Longrightarrow> stop_le a b"
  by (cases a; cases b) simp_all

lemma try_split_stop_le:
  assumes "within_stop op"
  shows "stop_le (stop (snd (try_split f t a po ts op))) (stop op)
         \<and> within_stop (snd (try_split f t a po ts op))
         \<and> index (snd (try_split f t a po ts op)) = index op"
proof -
  obtain r op' where r: "try_split f t a po ts op = (r, op')"
    by (cases "try_split f t a po ts op")
  show ?thesis
  proof (cases r)
    case None
    then have "op' = op" using r try_split_None by metis
    then show ?thesis using r assms by simp
  next
    case (Some q)
    obtain pe ps rs k where q: "q = (pe, ps, rs, k)" by (cases q)
    note ts = try_split_Some [OF r [unfolded Some q]]
    note cs = compute_split_Some [OF ts(4)]
    have le: "stop_le (Bounded k) (stop op)"
    proof (cases "split_in_element (index op) (current_element_progress_of op po)
                    (keep_of (index op) (current_element_progress_of op po) (stop op) f t) a ts")
      case None
      then show ?thesis using cs(2) below_stop_less stop_less_le by blast
    next
      case (Some z)
      then have "k = index op + 1" using cs(3) by simp
      then show ?thesis using assms below_stop_next by (simp add: within_stop_def)
    qed
    show ?thesis
      using r ts(1,2) le by (simp add: within_stop_def)
  qed
qed

lemma iteration_within_stop:
  assumes "within_stop op" and "process_encoded_iteration dec bs op = (it, op')"
  shows "within_stop op'" and "stop op' = stop op" and "index op \<le> index op'"
    and "started op' = started op"
    and "it = Return \<Longrightarrow> op' = op"
    and "it \<noteq> Return \<Longrightarrow> index op' = index op + 1"
  using assms
  by (auto simp: process_encoded_iteration_def within_stop_def at_stop_def Let_def
      split: if_splits option.splits stop_bound.splits)


lemma bounded_by_index: "bounded_by k op \<Longrightarrow> index op < k"
  by (cases "stop op") (auto simp: bounded_by_def within_stop_def)

lemma exec_within_stop:
  assumes "within_stop (operation w)"
  shows "within_stop (operation (exec dec ev w))
         \<and> stop_le (stop (operation (exec dec ev w))) (stop (operation w))
         \<and> (\<exists>new. outputs (exec dec ev w) = outputs w @ new
                \<and> (\<forall>(i, v) \<in> set new. i = index (operation (exec dec ev w))))"
proof (cases ev)
  case (Process_encoded bs)
  then show ?thesis using assms by simp
next
  case Loop
  show ?thesis
  proof (cases "input_stream w")
    case None
    then show ?thesis using Loop assms by simp
  next
    case (Some bs)
    obtain it op' where it: "process_encoded_iteration dec bs (operation w) = (it, op')"
      by (cases "process_encoded_iteration dec bs (operation w)")
    note iw = iteration_within_stop [OF assms it]
    show ?thesis using Loop Some it iw(1,2) by (cases it) simp_all
  qed
next
  case (Try_split f t a po ts)
  then show ?thesis using try_split_stop_le [OF assms, of f t a po ts] by simp
qed

lemma exec_bounded_by:
  assumes "bounded_by k (operation w)"
  shows "bounded_by k (operation (exec dec ev w))
         \<and> (\<exists>new. outputs (exec dec ev w) = outputs w @ new \<and> (\<forall>(i, v) \<in> set new. i < k))"
proof -
  have w: "within_stop (operation w)" using assms by (simp add: bounded_by_def)
  note e = exec_within_stop [OF w, of dec ev]
  have b: "bounded_by k (operation (exec dec ev w))"
    using e assms stop_le_trans by (auto simp: bounded_by_def)
  then have "index (operation (exec dec ev w)) < k" by (rule bounded_by_index)
  then show ?thesis using e b by auto
qed

lemma run_bounded_by:
  "bounded_by k (operation w) \<Longrightarrow>
     bounded_by k (operation (run dec evs w))
     \<and> (\<exists>new. outputs (run dec evs w) = outputs w @ new \<and> (\<forall>(i, v) \<in> set new. i < k))"
proof (induction evs arbitrary: w)
  case Nil
  then show ?case by (simp add: run_def)
next
  case (Cons ev evs)
  from exec_bounded_by [OF Cons.prems, of dec ev]
  obtain new1 where b1: "bounded_by k (operation (exec dec ev w))"
    and o1: "outputs (exec dec ev w) = outputs w @ new1" and n1: "\<forall>(i, v) \<in> set new1. i < k"
    by blast
  from Cons.IH [OF b1]
  obtain new2 where b2: "bounded_by k (operation (run dec evs (exec dec ev w)))"
    and o2: "outputs (run dec evs (exec dec ev w)) = outputs (exec dec ev w) @ new2"
    and n2: "\<forall>(i, v) \<in> set new2. i < k"
    by blast
  have r: "run dec (ev # evs) w = run dec evs (exec dec ev w)" by (simp add: run_def)
  have "outputs (run dec (ev # evs) w) = outputs w @ (new1 @ new2)"
    using o1 o2 r by simp
  moreover have "\<forall>(i, v) \<in> set (new1 @ new2). i < k" using n1 n2 by auto
  ultimately show ?case using b2 r by metis
qed

lemma run_within_stop:
  "within_stop (operation w) \<Longrightarrow>
     within_stop (operation (run dec evs w))
     \<and> stop_le (stop (operation (run dec evs w))) (stop (operation w))"
proof (induction evs arbitrary: w)
  case Nil
  then show ?case by (simp add: run_def)
next
  case (Cons ev evs)
  note e = exec_within_stop [OF Cons.prems, of dec ev]
  have r: "run dec (ev # evs) w = run dec evs (exec dec ev w)" by (simp add: run_def)
  show ?case using Cons.IH [of "exec dec ev w"] e r stop_le_trans by metis
qed

lemma process_encoded_at_stop:
  "at_stop op \<Longrightarrow> process_encoded dec bs op out = Some (Inr (), op, out)"
  by (subst process_encoded.simps) (simp add: process_encoded_iteration_def)

lemma exec_Loop_at_stop:
  "input_stream w = Some bs \<Longrightarrow> at_stop (operation w)
     \<Longrightarrow> exec dec Loop w = w\<lparr>input_stream := None\<rparr>"
  by (simp add: process_encoded_iteration_def)

text \<open>
  Claim C1. Once a successful \<open>try_split\<close> has stored the bound \<open>k\<close> in \<open>stop\<close>, then
  through every later interleaving of \<open>process_encoded\<close> calls, loop iterations and further
  splits, \<open>index\<close> stays below \<open>k\<close> and every element output from then on has an ordinal
  below \<open>k\<close>. When the loop finds \<open>index = stop - 1\<close> with bytes left in its stream, the
  call returns and the stream is gone: no field of the operation keeps it, and a call
  entered at the bound returns at once with nothing output, whatever its buffer holds.
\<close>

theorem split_bounds_later_outputs:
  assumes "try_split f t a po ts (operation w) = (Some (pe, ps, rs, k), op')"
  shows "stop op' = Bounded k
         \<and> index (operation (run dec evs (w\<lparr>operation := op'\<rparr>))) < k
         \<and> (\<forall>(i, v) \<in> set (drop (length (outputs w))
                               (outputs (run dec evs (w\<lparr>operation := op'\<rparr>)))). i < k)
         \<and> (\<forall>bs. input_stream (run dec evs (w\<lparr>operation := op'\<rparr>)) = Some bs
                  \<and> at_stop (operation (run dec evs (w\<lparr>operation := op'\<rparr>)))
               \<longrightarrow> exec dec Loop (run dec evs (w\<lparr>operation := op'\<rparr>))
                   = (run dec evs (w\<lparr>operation := op'\<rparr>))\<lparr>input_stream := None\<rparr>)
         \<and> (\<forall>op bs out. at_stop op
               \<longrightarrow> process_encoded dec bs op out = Some (Inr (), op, out))"
proof -
  note ts = try_split_Some [OF assms]
  have b: "bounded_by k (operation (w\<lparr>operation := op'\<rparr>))"
    using ts(1,2) by (simp add: bounded_by_def within_stop_def)
  from run_bounded_by [OF b, of dec evs]
  obtain new where rb: "bounded_by k (operation (run dec evs (w\<lparr>operation := op'\<rparr>)))"
    and o: "outputs (run dec evs (w\<lparr>operation := op'\<rparr>)) = outputs w @ new"
    and n: "\<forall>(i, v) \<in> set new. i < k"
    by auto
  have "stop op' = Bounded k" using ts(1) by simp
  moreover have "index (operation (run dec evs (w\<lparr>operation := op'\<rparr>))) < k"
    using rb by (rule bounded_by_index)
  moreover have "\<forall>(i, v) \<in> set (drop (length (outputs w))
                     (outputs (run dec evs (w\<lparr>operation := op'\<rparr>)))). i < k"
    using o n by simp
  ultimately show ?thesis
    using exec_Loop_at_stop process_encoded_at_stop by blast
qed

text \<open>The decoder of the examples: one byte is one element.\<close>

lemma split_bounds_later_outputs_example:
  "try_split (1 / 2) 10 [] None (\<lambda>_. None :: (unit list \<times> unit list) option)
     (operation (started_worker :: 8 word worker))
   = (Some (4, [], [], 5), \<lparr>index = - 1, stop = Bounded 5, started = True\<rparr>)"
  by (simp add: try_split_def started_worker_def start_def new_data_input_operation_def
      current_element_progress_of_def compute_split_half_of_ten_aux)

theorem split_bounds_later_outputs_witness:
  "try_split (1 / 2) 10 [] None (\<lambda>_. None :: (unit list \<times> unit list) option)
     (operation (started_worker :: 8 word worker))
   = (Some (4, [], [], 5), \<lparr>index = - 1, stop = Bounded 5, started = True\<rparr>)
   \<and> outputs (run (\<lambda>bs. case bs of [] \<Rightarrow> None | b # rest \<Rightarrow> Some (b, rest))
        [Process_encoded [10, 11, 12, 13, 14, 15, 16], Loop, Loop, Loop, Loop, Loop, Loop,
         Loop :: (unit, unit) event]
        (started_worker\<lparr>operation := \<lparr>index = - 1, stop = Bounded 5, started = True\<rparr>\<rparr>))
     = [(0, 10), (1, 11), (2, 12), (3, 13), (4, 14)]
   \<and> input_stream (run (\<lambda>bs. case bs of [] \<Rightarrow> None | b # rest \<Rightarrow> Some (b, rest))
        [Process_encoded [10, 11, 12, 13, 14, 15, 16], Loop, Loop, Loop, Loop, Loop, Loop,
         Loop :: (unit, unit) event]
        (started_worker\<lparr>operation := \<lparr>index = - 1, stop = Bounded 5, started = True\<rparr>\<rparr>))
     = None
   \<and> index (operation (run (\<lambda>bs. case bs of [] \<Rightarrow> None | b # rest \<Rightarrow> Some (b, rest))
        [Process_encoded [10, 11, 12, 13, 14, 15, 16], Loop, Loop, Loop, Loop, Loop, Loop,
         Loop :: (unit, unit) event]
        (started_worker\<lparr>operation := \<lparr>index = - 1, stop = Bounded 5, started = True\<rparr>\<rparr>)))
     < 5"
  using split_bounds_later_outputs [OF split_bounds_later_outputs_example,
      of "\<lambda>bs. case bs of [] \<Rightarrow> None | b # rest \<Rightarrow> Some (b, rest)"
         "[Process_encoded [10, 11, 12, 13, 14, 15, 16], Loop, Loop, Loop, Loop, Loop, Loop,
           Loop]"]
    split_bounds_later_outputs_example
  by (simp add: run_def started_worker_def process_encoded_iteration_def at_stop_def)

lemma started_worker_within_stop: "within_stop (operation started_worker)"
  by (simp add: started_worker_def start_def new_data_input_operation_def within_stop_def)

text \<open>
  Claim C10. Within a bundle (from the started operation, through any interleaving of
  \<open>process_encoded\<close> calls, loop iterations and splits) a \<open>try_split\<close> that returns no
  split leaves the operation as it was; one that returns a split stores the returned
  residual start \<open>k\<close> in \<open>stop\<close>, with \<open>k\<close> at most the previous \<open>stop\<close>, strictly less
  when the split is at an element boundary, and strictly greater than \<open>index\<close>, which it
  leaves alone. So \<open>stop\<close> never increases along the bundle.
\<close>

theorem try_split_lowers_stop:
  "(case try_split f t a po ts (operation (run dec evs started_worker)) of
      (None, op') \<Rightarrow> op' = operation (run dec evs started_worker)
    | (Some (pe, ps, rs, k), op') \<Rightarrow>
        stop op' = Bounded k
        \<and> stop_le (Bounded k) (stop (operation (run dec evs started_worker)))
        \<and> index op' = index (operation (run dec evs started_worker))
        \<and> index op' < k
        \<and> (split_in_element (index op')
               (current_element_progress_of (operation (run dec evs started_worker)) po)
               (keep_of (index op')
                  (current_element_progress_of (operation (run dec evs started_worker)) po)
                  (stop (operation (run dec evs started_worker))) f t) a ts = None
             \<longrightarrow> stop_less (Bounded k) (stop (operation (run dec evs started_worker)))))
   \<and> stop_le (stop (operation (run dec (evs @ evs') started_worker)))
         (stop (operation (run dec evs started_worker)))"
proof -
  define w where "w = run dec evs started_worker"
  note w0 = started_worker_within_stop
  have ws: "within_stop (operation w)"
    unfolding w_def using run_within_stop [OF w0] by blast
  have app: "run dec (evs @ evs') started_worker = run dec evs' w"
    by (simp add: run_def w_def)
  have mono: "stop_le (stop (operation (run dec evs' w))) (stop (operation w))"
    using run_within_stop [OF ws] by blast
  obtain r op' where r: "try_split f t a po ts (operation w) = (r, op')"
    by (cases "try_split f t a po ts (operation w)")
  have first: "case (r, op') of
      (None, op') \<Rightarrow> op' = operation w
    | (Some (pe, ps, rs, k), op') \<Rightarrow>
        stop op' = Bounded k
        \<and> stop_le (Bounded k) (stop (operation w))
        \<and> index op' = index (operation w)
        \<and> index op' < k
        \<and> (split_in_element (index op') (current_element_progress_of (operation w) po)
               (keep_of (index op') (current_element_progress_of (operation w) po)
                  (stop (operation w)) f t) a ts = None
             \<longrightarrow> stop_less (Bounded k) (stop (operation w)))"
  proof (cases r)
    case None
    then show ?thesis using r try_split_None by fastforce
  next
    case (Some q)
    obtain pe ps rs k where q: "q = (pe, ps, rs, k)" by (cases q)
    note ts = try_split_Some [OF r [unfolded Some q]]
    note cs = compute_split_Some [OF ts(4)]
    have "stop_le (stop (snd (try_split f t a po ts (operation w)))) (stop (operation w))"
      using try_split_stop_le [OF ws] by blast
    then have le: "stop_le (Bounded k) (stop (operation w))" using r ts(1) by simp
    show ?thesis using Some q ts(1,2) le cs(2) below_stop_less by simp
  qed
  show ?thesis
    using first mono unfolding r [symmetric] app w_def [symmetric] by simp
qed

lemma try_split_lowers_stop_example_run:
  "run (\<lambda>bs. case bs of [] \<Rightarrow> None | b # rest \<Rightarrow> Some (b, rest))
     [Process_encoded [10, 11, 12], Loop,
      Try_split (1 / 2) 10 [] None (\<lambda>_. None :: (unit list \<times> unit list) option), Loop]
     (started_worker :: 8 word worker)
   = \<lparr>operation = \<lparr>index = 1, stop = Bounded 5, started = True\<rparr>,
      input_stream = Some [12], outputs = [(0, 10), (1, 11)], raised = False\<rparr>"
proof -
  have r: "py_round (21 / 4) = 5"
    by code_simp
  show ?thesis
    by (simp add: run_def started_worker_def start_def new_data_input_operation_def
        process_encoded_iteration_def at_stop_def try_split_def
        current_element_progress_of_def compute_split_def keep_of_def
        clamp_total_buffer_size_def split_in_element_def split_at_boundary_def
        raw_stop_index_def closest_allowed_split_point_def r)
qed

theorem try_split_lowers_stop_witness:
  "try_split (1 / 2) 10 [] (Some (1 / 2)) (\<lambda>_. None :: (unit list \<times> unit list) option)
     (operation
        (run (\<lambda>bs. case bs of [] \<Rightarrow> None | b # rest \<Rightarrow> Some (b, rest))
           [Process_encoded [10, 11, 12], Loop,
            Try_split (1 / 2) 10 [] None (\<lambda>_. None :: (unit list \<times> unit list) option), Loop]
           (started_worker :: 8 word worker)))
   = (Some (2, [], [], 3), \<lparr>index = 1, stop = Bounded 3, started = True\<rparr>)
   \<and> split_in_element 1 (1 / 2) (keep_of 1 (1 / 2) (Bounded 5) (1 / 2) 10) []
         (\<lambda>_. None :: (unit list \<times> unit list) option) = None
   \<and> stop_less (Bounded 3) (Bounded 5)
   \<and> (1 :: int) < 3"
proof -
  have r: "py_round (9 / 4) = 2"
    by code_simp
  have k: "keep_of 1 (1 / 2) (Bounded 5) (1 / 2) 10 = 7 / 4"
    by (simp add: keep_of_def clamp_total_buffer_size_def)
  have el: "split_in_element 1 (1 / 2) (7 / 4) []
              (\<lambda>_. None :: (unit list \<times> unit list) option) = None"
    by (simp add: split_in_element_def)
  have ts: "try_split (1 / 2) 10 [] (Some (1 / 2))
              (\<lambda>_. None :: (unit list \<times> unit list) option)
              \<lparr>index = 1, stop = Bounded 5, started = True\<rparr>
            = (Some (2, [], [], 3), \<lparr>index = 1, stop = Bounded 3, started = True\<rparr>)"
    by (simp add: try_split_def current_element_progress_of_def compute_split_def k el
        split_at_boundary_def raw_stop_index_def closest_allowed_split_point_def r)
  show ?thesis
    using try_split_lowers_stop
      [where f = "1 / 2" and t = 10 and a = "[]" and po = "Some (1 / 2)"
         and ts = "\<lambda>_. None :: (unit list \<times> unit list) option"
         and dec = "\<lambda>bs. case bs of [] \<Rightarrow> None | b # rest \<Rightarrow> Some (b, rest)"
         and evs = "[Process_encoded [10, 11, 12], Loop,
                     Try_split (1 / 2) 10 [] None (\<lambda>_. None), Loop]"
         and evs' = "[]"]
    by (simp add: try_split_lowers_stop_example_run ts k el)
qed

section \<open>RangeSet: the stored ranges and the membership test\<close>

lemma separated_pair: "separated ps \<Longrightarrow> (s, e) \<in> set ps \<Longrightarrow> s < e"
  by (induction ps) auto

lemma separated_append:
  "separated (xs @ ys) \<longleftrightarrow>
     separated xs \<and> separated ys \<and> (\<forall>(s, e) \<in> set xs. \<forall>(s', e') \<in> set ys. e < s')"
  by (induction xs) (auto simp: ball_Un)

lemma separated_drop_ends:
  "separated ps \<Longrightarrow> \<forall>(s, e) \<in> set (dropWhile (\<lambda>(s, e). e < a) ps). a \<le> e"
proof (induction ps)
  case (Cons p ps)
  obtain s e where p: "p = (s, e)" by (cases p)
  have later: "\<forall>(s', e') \<in> set ps. e < e'"
    using Cons.prems separated_pair [of ps] by (fastforce simp: p)
  show ?case
  proof (cases "e < a")
    case True
    then show ?thesis using Cons by (simp add: p)
  next
    case False
    then show ?thesis using later by (auto simp: p)
  qed
qed simp

lemma separated_drop_starts:
  "separated ps \<Longrightarrow> \<forall>(s, e) \<in> set (dropWhile (\<lambda>(s, e). s \<le> b) ps). b < s"
proof (induction ps)
  case (Cons p ps)
  obtain s e where p: "p = (s, e)" by (cases p)
  have later: "\<forall>(s', e') \<in> set ps. s < s'"
    using Cons.prems by (fastforce simp: p)
  show ?case
  proof (cases "s \<le> b")
    case True
    then show ?thesis using Cons by (simp add: p)
  next
    case False
    then show ?thesis using later by (auto simp: p)
  qed
qed simp


lemma separated_append3:
  assumes "separated (A @ B @ C)"
  shows "separated A \<and> separated B \<and> separated C
         \<and> (\<forall>(s, e) \<in> set A. \<forall>(s', e') \<in> set B. e < s')
         \<and> (\<forall>(s, e) \<in> set B. \<forall>(s', e') \<in> set C. e < s')"
proof -
  have 1: "separated A" "separated (B @ C)"
    and 2: "\<forall>(s, e) \<in> set A. \<forall>(s', e') \<in> set (B @ C). e < s'"
    using assms separated_append [of A "B @ C"] by blast+
  have 3: "separated B" "separated C" "\<forall>(s, e) \<in> set B. \<forall>(s', e') \<in> set C. e < s'"
    using 1(2) separated_append [of B C] by blast+
  have "\<forall>(s, e) \<in> set A. \<forall>(s', e') \<in> set B. e < s'"
    using 2 by fastforce
  then show ?thesis using 1 3 by blast
qed

lemma insort_between:
  "\<forall>y \<in> set xs. y < x \<Longrightarrow> \<forall>y \<in> set ys. x \<le> y \<Longrightarrow> insort x (xs @ ys) = xs @ x # ys"
  for x :: int
proof (induction xs)
  case Nil
  then show ?case by (cases ys) auto
next
  case (Cons y xs)
  then show ?case by auto
qed

lemma decomposition:
  assumes "separated ps" and "a < b"
  obtains A B C where "ps = A @ B @ C"
    and "\<forall>(s, e) \<in> set A. e < a"
    and "\<forall>(s, e) \<in> set B. a \<le> e \<and> s \<le> b"
    and "\<forall>(s, e) \<in> set C. b < s"
    and "bisect_left (map snd ps) a = length A"
    and "bisect_right (map fst ps) b = length A + length B"
    and "merged a b ps =
           A @ [(if B = [] then a else min a (fst (hd B)),
                 if B = [] then b else max b (snd (last B)))] @ C"
proof -
  define P where "P = (\<lambda>(s :: int, e). e < a)"
  define Q where "Q = (\<lambda>(s, e :: int). s \<le> b)"
  define A where "A = takeWhile P ps"
  define rest where "rest = dropWhile P ps"
  define B where "B = takeWhile Q rest"
  define C where "C = dropWhile Q rest"
  have ps: "ps = A @ rest" and rest: "rest = B @ C"
    by (simp_all add: A_def rest_def B_def C_def)
  have pa: "\<forall>(s, e) \<in> set A. e < a"
    unfolding A_def P_def by (auto dest: set_takeWhileD)
  have cr: "separated rest" using assms(1) ps separated_append by metis
  have "\<forall>(s, e) \<in> set rest. a \<le> e"
    using separated_drop_ends [OF assms(1), of a] by (simp add: rest_def P_def)
  moreover have "\<forall>(s, e) \<in> set B. s \<le> b"
    unfolding B_def Q_def by (auto dest: set_takeWhileD)
  ultimately have pb: "\<forall>(s, e) \<in> set B. a \<le> e \<and> s \<le> b"
    using rest by auto
  have pc: "\<forall>(s, e) \<in> set C. b < s"
    using separated_drop_starts [OF cr, of b] by (simp add: C_def Q_def)
  have Pc: "(\<lambda>y. y < a) \<circ> snd = P" by (auto simp: P_def fun_eq_iff)
  have Qc: "(\<lambda>y. y \<le> b) \<circ> fst = Q" by (auto simp: Q_def fun_eq_iff)
  have m: "bisect_left (map snd ps) a = length A"
    by (simp add: bisect_left_def takeWhile_map Pc A_def)
  have QA: "\<forall>x \<in> set A. Q x"
  proof
    fix x assume x: "x \<in> set A"
    obtain s e where se: "x = (s, e)" by (cases x)
    have "e < a" using pa x se by auto
    moreover have "s < e" using separated_pair [OF assms(1)] x se ps by auto
    ultimately show "Q x" using assms(2) by (simp add: Q_def se)
  qed
  have "takeWhile Q ps = A @ B"
    using QA by (subst ps) (simp add: takeWhile_append2 B_def)
  then have M: "bisect_right (map fst ps) b = length A + length B"
    by (simp add: bisect_right_def takeWhile_map Qc)
  have mg: "merged a b ps =
           A @ [(if B = [] then a else min a (fst (hd B)),
                 if B = [] then b else max b (snd (last B)))] @ C"
    by (simp add: merged_def Let_def A_def rest_def B_def C_def P_def Q_def)
  show thesis
    using that [OF _ pa pb pc m M mg] ps rest by simp
qed


lemma range_set_add_of_pairs:
  assumes "separated ps" and "a < b"
  shows "range_set_add a b (of_pairs ps) = Inr (of_pairs (merged a b ps))"
proof -
  from decomposition [OF assms] obtain A B C where
    ps: "ps = A @ B @ C"
    and pa: "\<forall>(s, e) \<in> set A. e < a"
    and pb: "\<forall>(s, e) \<in> set B. a \<le> e \<and> s \<le> b"
    and pc: "\<forall>(s, e) \<in> set C. b < s"
    and m: "bisect_left (map snd ps) a = length A"
    and M: "bisect_right (map fst ps) b = length A + length B"
    and mg: "merged a b ps =
           A @ [(if B = [] then a else min a (fst (hd B)),
                 if B = [] then b else max b (snd (last B)))] @ C"
    by blast
  have lt: "\<And>s e. (s, e) \<in> set ps \<Longrightarrow> s < e" using separated_pair [OF assms(1)] by blast
  have cA: "separated A" and cB: "separated B" and cC: "separated C"
    and AB: "\<forall>(s, e) \<in> set A. \<forall>(s', e') \<in> set B. e < s'"
    and BC: "\<forall>(s, e) \<in> set B. \<forall>(s', e') \<in> set C. e < s'"
    using separated_append3 [OF assms(1) [unfolded ps]] by blast+
  \<comment> \<open>bounds on the starts and ends of the untouched parts\<close>
  have sA: "\<forall>y \<in> set (map fst A). y < a"
    using pa lt ps by fastforce
  have eA: "\<forall>y \<in> set (map snd A). y < a"
    using pa by fastforce
  have sC: "\<forall>y \<in> set (map fst C). b < y"
    using pc by fastforce
  have eC: "\<forall>y \<in> set (map snd C). b < y"
    using pc lt ps by fastforce
  show ?thesis
  proof (cases "B = []")
    case True
    have i1: "insort a (map fst A @ map fst C) = map fst A @ a # map fst C"
      using sA sC assms(2) by (intro insort_between) auto
    have i2: "insort b (map snd A @ map snd C) = map snd A @ b # map snd C"
      using eA eC assms(2) by (intro insort_between) auto
    have g1: "A \<noteq> [] \<Longrightarrow> C \<noteq> [] \<Longrightarrow> min a (fst (hd C)) = a"
      using sC assms(2) by (cases C) auto
    have g2: "A \<noteq> [] \<Longrightarrow> C \<noteq> [] \<Longrightarrow> max b (snd (last A)) = b"
      using eA assms(2) by (cases A rule: rev_cases) auto
    have mB: "bisect_left (map snd A @ map snd C) a = length A"
      and MB: "bisect_right (map fst A @ map fst C) b = length A"
      using m M unfolding ps True by simp_all
    have mgB: "merged a b (A @ C) = A @ (a, b) # C"
      using mg unfolding ps True by simp
    show ?thesis
    proof (cases "A = [] \<or> C = []")
      case True
      then show ?thesis
        using \<open>B = []\<close> assms(2) i1 i2
        by (auto simp: range_set_add_def of_pairs_def ps mB MB mgB Let_def)
    next
      case False
      then have n1: "(map fst A @ map fst C) ! length A = fst (hd C)"
        and n2: "(map snd A @ map snd C) ! (length A - 1) = snd (last A)"
        by (simp_all add: nth_append hd_conv_nth last_conv_nth)
      have lt: "length A - Suc 0 < length A + length C" "length A - 1 < length A + length C"
        using False by (cases C; simp)+
      show ?thesis
        using lt False \<open>B = []\<close> assms(2) i1 i2 g1 g2 n1 n2
        by (simp add: range_set_add_def of_pairs_def ps mB MB mgB Let_def getitem_def
            del_slice_def)
    qed
  next
    case False
    define ns where "ns = min a (fst (hd B))"
    define ne where "ne = max b (snd (last B))"
    have hdB: "hd B \<in> set B" and lastB: "last B \<in> set B" using False by simp_all
    have "\<forall>y \<in> set (map fst A). y < fst (hd B)"
      using AB hdB lt ps by (cases "hd B") fastforce
    then have s1: "\<forall>y \<in> set (map fst A). y < ns" using sA by (simp add: ns_def)
    have s2: "\<forall>y \<in> set (map fst C). ns \<le> y" using sC assms(2) by (auto simp: ns_def)
    have e1: "\<forall>y \<in> set (map snd A). y < ne" using eA assms(2) by (auto simp: ne_def)
    have "\<forall>y \<in> set (map snd C). snd (last B) < y"
      using BC lastB lt ps by (cases "last B") fastforce
    then have e2: "\<forall>y \<in> set (map snd C). ne \<le> y" using eC by (auto simp: ne_def)
    have i1: "insort ns (map fst A @ map fst C) = map fst A @ ns # map fst C"
      using s1 s2 by (rule insort_between)
    have i2: "insort ne (map snd A @ map snd C) = map snd A @ ne # map snd C"
      using e1 e2 by (rule insort_between)
    have n1: "(map fst A @ map fst B @ map fst C) ! length A = fst (hd B)"
      using False by (simp add: nth_append hd_conv_nth)
    have n2: "(map snd A @ map snd B @ map snd C) ! (length A + length B - 1) = snd (last B)"
      using False by (cases B rule: rev_cases) (simp_all add: nth_append)
    have mB: "bisect_left (map snd A @ map snd B @ map snd C) a = length A"
      and MB: "bisect_right (map fst A @ map fst B @ map fst C) b = length A + length B"
      using m M unfolding ps by simp_all
    have mgB: "merged a b (A @ B @ C) = A @ (ns, ne) # C"
      using mg False unfolding ps by (simp add: ns_def ne_def)
    have lt: "length A + length B - Suc 0 < length A + (length B + length C)"
      using False by (cases B) simp_all
    show ?thesis
      using lt False assms(2) i1 i2 n1 n2
      by (simp add: range_set_add_def of_pairs_def ps mB MB mgB
          Let_def getitem_def del_slice_def ns_def ne_def)
  qed
qed




lemma separated_insert:
  assumes "separated A" and "separated C" and "ns < ne"
    and "\<forall>(s, e) \<in> set A. e < ns" and "\<forall>(s, e) \<in> set C. ne < s"
  shows "separated (A @ (ns, ne) # C)"
proof -
  have 1: "separated ((ns, ne) # C)" using assms(2,3,5) by simp
  have 2: "\<forall>(s, e) \<in> set A. \<forall>(s', e') \<in> set ((ns, ne) # C). e < s'"
  proof (clarify)
    fix s e s' e'
    assume A: "(s, e) \<in> set A" and C: "(s', e') \<in> set ((ns, ne) # C)"
    have e: "e < ns" using assms(4) A by blast
    show "e < s'"
    proof (cases "(s', e') = (ns, ne)")
      case True
      then show ?thesis using e by simp
    next
      case False
      then have "(s', e') \<in> set C" using C by auto
      then have "ne < s'" using assms(5) by blast
      then show ?thesis using e assms(3) by linarith
    qed
  qed
  show ?thesis using assms(1) 1 2 separated_append [of A "(ns, ne) # C"] by blast
qed

lemma separated_merged:
  assumes "separated ps" and "a < b"
  shows "separated (merged a b ps)"
proof -
  from decomposition [OF assms] obtain A B C where
    ps: "ps = A @ B @ C"
    and pa: "\<forall>(s, e) \<in> set A. e < a"
    and pb: "\<forall>(s, e) \<in> set B. a \<le> e \<and> s \<le> b"
    and pc: "\<forall>(s, e) \<in> set C. b < s"
    and m: "bisect_left (map snd ps) a = length A"
    and M: "bisect_right (map fst ps) b = length A + length B"
    and mg: "merged a b ps =
           A @ [(if B = [] then a else min a (fst (hd B)),
                 if B = [] then b else max b (snd (last B)))] @ C"
    by blast
  have cA: "separated A" and cB: "separated B" and cC: "separated C"
    and AB: "\<forall>(s, e) \<in> set A. \<forall>(s', e') \<in> set B. e < s'"
    and BC: "\<forall>(s, e) \<in> set B. \<forall>(s', e') \<in> set C. e < s'"
    using separated_append3 [OF assms(1) [unfolded ps]] by blast+
  show ?thesis
  proof (cases "B = []")
    case True
    have "separated (A @ (a, b) # C)"
      using cA cC assms(2) pa pc by (rule separated_insert)
    then show ?thesis using True by (simp add: mg)
  next
    case False
    have hdB: "hd B \<in> set B" and lastB: "last B \<in> set B" using False by simp_all
    have 1: "\<forall>(s, e) \<in> set A. e < min a (fst (hd B))"
      using AB hdB pa by (cases "hd B") fastforce
    have 2: "\<forall>(s, e) \<in> set C. max b (snd (last B)) < s"
      using BC lastB pc by (cases "last B") fastforce
    have 3: "min a (fst (hd B)) < max b (snd (last B))"
      using assms(2) by simp
    have "separated (A @ (min a (fst (hd B)), max b (snd (last B))) # C)"
      using cA cC 3 1 2 by (rule separated_insert)
    then show ?thesis using False by (simp add: mg)
  qed
qed

lemma covered_simps [simp]:
  "covered [] = {}" "covered ((s, e) # ps) = {s ..< e} \<union> covered ps"
  "covered (xs @ ys) = covered xs \<union> covered ys"
  by (auto simp: covered_def)

lemma separated_hd_least: "separated B \<Longrightarrow> (s, e) \<in> set B \<Longrightarrow> fst (hd B) \<le> s"
  by (cases B) (force dest: separated_pair)+

lemma separated_last_greatest: "separated B \<Longrightarrow> (s, e) \<in> set B \<Longrightarrow> e \<le> snd (last B)"
proof (induction B)
  case (Cons p B)
  obtain s' e' where p: "p = (s', e')" by (cases p)
  show ?case
  proof (cases "B = []")
    case True
    then show ?thesis using Cons.prems(2) by auto
  next
    case False
    then have l: "last B \<in> set B" by simp
    obtain s2 e2 where l2: "last B = (s2, e2)" by (cases "last B")
    have cB: "separated B" and after: "\<forall>(s'', e'') \<in> set B. e' < s''"
      using Cons.prems(1) by (simp_all add: p)
    have "e' < s2" using after l l2 by auto
    moreover have "s2 < e2" using separated_pair [OF cB] l l2 by auto
    ultimately have first: "e' \<le> snd (last B)" using l2 by simp
    have lastc: "last (p # B) = last B" using False by simp
    show ?thesis
    proof (cases "(s, e) = p")
      case True
      then have "e = e'" using p by simp
      then show ?thesis using first lastc by simp
    next
      case False
      then have "(s, e) \<in> set B" using Cons.prems(2) by simp
      then show ?thesis using Cons.IH [OF cB] lastc by simp
    qed
  qed
qed simp

lemma covered_merged:
  assumes "separated ps" and "a < b"
  shows "covered (merged a b ps) = covered ps \<union> {a ..< b}"
proof -
  from decomposition [OF assms] obtain A B C where
    ps: "ps = A @ B @ C"
    and pa: "\<forall>(s, e) \<in> set A. e < a"
    and pb: "\<forall>(s, e) \<in> set B. a \<le> e \<and> s \<le> b"
    and pc: "\<forall>(s, e) \<in> set C. b < s"
    and m: "bisect_left (map snd ps) a = length A"
    and M: "bisect_right (map fst ps) b = length A + length B"
    and mg: "merged a b ps =
           A @ [(if B = [] then a else min a (fst (hd B)),
                 if B = [] then b else max b (snd (last B)))] @ C"
    by blast
  have cB: "separated B" using separated_append3 [OF assms(1) [unfolded ps]] by blast
  have mid: "{(if B = [] then a else min a (fst (hd B)))
              ..< (if B = [] then b else max b (snd (last B)))} = covered B \<union> {a ..< b}"
  proof (cases "B = []")
    case True
    then show ?thesis by simp
  next
    case False
    obtain s1 e1 where h: "hd B = (s1, e1)" by (cases "hd B")
    obtain s2 e2 where l: "last B = (s2, e2)" by (cases "last B")
    have hB: "(s1, e1) \<in> set B" and lB: "(s2, e2) \<in> set B"
      using False h l hd_in_set last_in_set by metis+
    have b1: "a \<le> e1" "s2 \<le> b" using pb hB lB by auto
    have sub: "covered B \<subseteq> {min a s1 ..< max b e2}"
    proof
      fix x assume "x \<in> covered B"
      then obtain s e where se: "(s, e) \<in> set B" "s \<le> x" "x < e"
        by (auto simp: covered_def)
      have "s1 \<le> s" using separated_hd_least [OF cB se(1)] h by simp
      moreover have "e \<le> e2" using separated_last_greatest [OF cB se(1)] l by simp
      ultimately show "x \<in> {min a s1 ..< max b e2}" using se by auto
    qed
    have sup: "{min a s1 ..< max b e2} \<subseteq> covered B \<union> {a ..< b}"
    proof
      fix x assume x: "x \<in> {min a s1 ..< max b e2}"
      show "x \<in> covered B \<union> {a ..< b}"
      proof (cases "a \<le> x \<and> x < b")
        case True
        then show ?thesis by simp
      next
        case False
        then consider "x < a" | "b \<le> x" by linarith
        then show ?thesis
        proof cases
          case 1
          then have "s1 \<le> x \<and> x < e1" using x b1 by auto
          then have "x \<in> covered B"
            unfolding covered_def using hB by (intro UN_I [of "(s1, e1)"]) simp_all
          then show ?thesis by simp
        next
          case 2
          then have "s2 \<le> x \<and> x < e2" using x b1 by auto
          then have "x \<in> covered B"
            unfolding covered_def using lB by (intro UN_I [of "(s2, e2)"]) simp_all
          then show ?thesis by simp
        qed
      qed
    qed
    show ?thesis using False sub sup assms(2) by (auto simp: h l)
  qed
  have "covered (merged a b ps) =
          covered A \<union> {(if B = [] then a else min a (fst (hd B)))
                       ..< (if B = [] then b else max b (snd (last B)))} \<union> covered C"
    unfolding mg by (simp add: Un_assoc)
  then have 1: "covered (merged a b ps) = covered A \<union> (covered B \<union> {a ..< b}) \<union> covered C"
    unfolding mid .
  have 2: "covered ps = covered A \<union> covered B \<union> covered C"
    unfolding ps by (simp add: Un_assoc)
  show ?thesis unfolding 1 2 by blast
qed



lemma separated_drop_before:
  "separated ps \<Longrightarrow> \<forall>(s, e) \<in> set (dropWhile (\<lambda>(s, e). s < k) ps). k \<le> s"
proof (induction ps)
  case (Cons p ps)
  obtain s e where p: "p = (s, e)" by (cases p)
  have later: "\<forall>(s', e') \<in> set ps. s < s'"
    using Cons.prems by (fastforce simp: p)
  show ?case
  proof (cases "s < k")
    case True
    then show ?thesis using Cons by (simp add: p)
  next
    case False
    then show ?thesis using later by (auto simp: p)
  qed
qed simp

lemma range_set_contains_of_pairs:
  assumes "separated ps"
  shows "range_set_contains k (of_pairs ps) = Inr (k \<in> covered ps)"
proof -
  define P where "P = (\<lambda>(s, e :: int). s < k)"
  define A where "A = takeWhile P ps"
  define C where "C = dropWhile P ps"
  have ps: "ps = A @ C" by (simp add: A_def C_def)
  have cA: "separated A" and cC: "separated C"
    using assms separated_append [of A C] unfolding ps by blast+
  have pa: "\<forall>(s, e) \<in> set A. s < k"
    unfolding A_def P_def by (auto dest: set_takeWhileD)
  have pc: "\<forall>(s, e) \<in> set C. k \<le> s"
    using separated_drop_before [OF assms, of k] by (simp add: C_def P_def)
  have Pc: "(\<lambda>y. y < k) \<circ> fst = P" by (auto simp: P_def fun_eq_iff)
  have idx: "bisect_left (map fst A @ map fst C) k = length A"
    using ps by (simp add: bisect_left_def takeWhile_map Pc A_def flip: map_append)
  have inC: "k \<in> covered C \<longleftrightarrow> C \<noteq> [] \<and> fst (hd C) = k"
  proof
    assume "k \<in> covered C"
    then obtain s e where se: "(s, e) \<in> set C" "s \<le> k" "k < e"
      by (auto simp: covered_def)
    then have ne: "C \<noteq> []" by auto
    have "k \<le> fst (hd C)" using pc ne hd_in_set [OF ne] by (cases "hd C") auto
    moreover have "fst (hd C) \<le> s" using separated_hd_least [OF cC se(1)] .
    ultimately show "C \<noteq> [] \<and> fst (hd C) = k" using ne se(2) by simp
  next
    assume h: "C \<noteq> [] \<and> fst (hd C) = k"
    obtain s e where he: "hd C = (s, e)" by (cases "hd C")
    have in_C: "(s, e) \<in> set C" using h he hd_in_set by metis
    then have "s < e" using separated_pair [OF cC] by blast
    then have "k \<in> {s ..< e}" using h he by simp
    then show "k \<in> covered C" unfolding covered_def using in_C by (intro UN_I [of "(s, e)"]) simp_all
  qed
  have inA: "k \<in> covered A \<longleftrightarrow> A \<noteq> [] \<and> k < snd (last A)"
  proof
    assume "k \<in> covered A"
    then obtain s e where se: "(s, e) \<in> set A" "s \<le> k" "k < e"
      by (auto simp: covered_def)
    then have ne: "A \<noteq> []" by auto
    have "e \<le> snd (last A)" using separated_last_greatest [OF cA se(1)] .
    then show "A \<noteq> [] \<and> k < snd (last A)" using ne se(3) by simp
  next
    assume h: "A \<noteq> [] \<and> k < snd (last A)"
    obtain s e where le: "last A = (s, e)" by (cases "last A")
    have in_A: "(s, e) \<in> set A" using h le last_in_set by metis
    then have "s < k" using pa by blast
    then have "k \<in> {s ..< e}" using h le by simp
    then show "k \<in> covered A" unfolding covered_def using in_A by (intro UN_I [of "(s, e)"]) simp_all
  qed
  have cov: "k \<in> covered ps \<longleftrightarrow> k \<in> covered A \<or> k \<in> covered C"
    unfolding ps by simp
  have n1: "C \<noteq> [] \<Longrightarrow> (map fst A @ map fst C) ! length A = fst (hd C)"
    by (simp add: nth_append hd_conv_nth)
  have n2: "A \<noteq> [] \<Longrightarrow> (map snd A @ map snd C) ! (length A - 1) = snd (last A)"
    by (cases A rule: rev_cases) (simp_all add: nth_append)
  have lt: "A \<noteq> [] \<Longrightarrow> length A - Suc 0 < length A + length C"
    by (cases A) simp_all
  show ?thesis
  proof (cases "C \<noteq> [] \<and> fst (hd C) = k")
    case True
    then show ?thesis using n1 inC cov
      by (simp add: range_set_contains_def of_pairs_def ps idx Let_def)
  next
    case False
    have nC: "k \<notin> covered C" using False inC by blast
    show ?thesis
    proof (cases "A = []")
      case True
      have idx0: "bisect_left (map fst C) k = 0" using idx True by simp
      have "C \<noteq> [] \<Longrightarrow> fst (C ! 0) \<noteq> k" using False by (simp add: hd_conv_nth)
      then have "range_set_contains k (of_pairs ps) = Inr False"
        using True by (auto simp: range_set_contains_def of_pairs_def ps idx0 Let_def)
      then show ?thesis using True nC inA cov by simp
    next
      case nA: False
      have "range_set_contains k (of_pairs ps) = Inr (k < snd (last A))"
        using False nA n1 n2 [OF nA] lt [OF nA]
        by (auto simp: range_set_contains_def of_pairs_def ps idx Let_def getitem_def)
      then show ?thesis using nA nC inA cov by simp
    qed
  qed
qed

lemma union_of_Cons: "union_of ((a, b) # adds) = {a ..< b} \<union> union_of adds"
  by (simp add: union_of_def)

lemma range_set_add_all_of_pairs:
  "separated ps \<Longrightarrow>
     \<exists>ps'. range_set_add_all adds (of_pairs ps) = Inr (of_pairs ps') \<and> separated ps'
           \<and> covered ps' = covered ps \<union> union_of adds"
proof (induction adds arbitrary: ps)
  case Nil
  then show ?case by (auto simp: union_of_def)
next
  case (Cons p adds)
  obtain a b where p: "p = (a, b)" by (cases p)
  show ?case
  proof (cases "a < b")
    case True
    note step = range_set_add_of_pairs [OF Cons.prems True]
    from Cons.IH [OF separated_merged [OF Cons.prems True]]
    obtain ps' where r: "range_set_add_all adds (of_pairs (merged a b ps)) = Inr (of_pairs ps')"
      and c: "separated ps'" and u: "covered ps' = covered (merged a b ps) \<union> union_of adds"
      by blast
    have "covered ps' = covered ps \<union> union_of (p # adds)"
      using u covered_merged [OF Cons.prems True] by (auto simp: p union_of_Cons)
    then show ?thesis using r c step by (auto simp: p)
  next
    case False
    then have same: "range_set_add a b (of_pairs ps) = Inr (of_pairs ps)"
      by (simp add: range_set_add_def)
    from Cons.IH [OF Cons.prems]
    obtain ps' where r: "range_set_add_all adds (of_pairs ps) = Inr (of_pairs ps')"
      and c: "separated ps'" and u: "covered ps' = covered ps \<union> union_of adds"
      by blast
    have "covered ps' = covered ps \<union> union_of (p # adds)"
      using u False by (auto simp: p union_of_Cons)
    then show ?thesis using r c same by (auto simp: p)
  qed
qed

lemma separated_nth_less:
  "separated ps \<Longrightarrow> i < j \<Longrightarrow> j < length ps \<Longrightarrow> snd (ps ! i) < fst (ps ! j)"
proof (induction ps arbitrary: i j)
  case (Cons p ps)
  obtain s e where p: "p = (s, e)" by (cases p)
  obtain j' where j: "j = Suc j'" using Cons.prems(2) by (cases j) auto
  have j': "j' < length ps" using Cons.prems(3) j by simp
  show ?case
  proof (cases i)
    case 0
    obtain s' e' where q: "ps ! j' = (s', e')" by (cases "ps ! j'")
    have "(s', e') \<in> set ps" using j' q nth_mem by metis
    then have "e < s'" using Cons.prems(1) by (auto simp: p)
    then have "e < fst (ps ! j')" using q by simp
    then show ?thesis using 0 j by (simp add: p)
  next
    case (Suc i')
    then have "i' < j'" using Cons.prems(2) j by simp
    then show ?thesis using Cons.IH [of i' j'] Cons.prems(1) j' Suc j by (simp add: p)
  qed
qed simp

lemma separated_disjoint_and_not_adjacent:
  assumes "separated ps"
  shows "disjoint_and_not_adjacent (of_pairs ps)"
proof -
  have 1: "\<forall>i < length ps. fst (ps ! i) < snd (ps ! i)"
    using separated_pair [OF assms] by (metis nth_mem prod.collapse)
  have 2: "\<forall>i < length ps. \<forall>j < length ps. i \<noteq> j \<longrightarrow>
             snd (ps ! i) < fst (ps ! j) \<or> snd (ps ! j) < fst (ps ! i)"
  proof (intro allI impI)
    fix i j assume "i < length ps" "j < length ps" "i \<noteq> j"
    then consider "i < j" | "j < i" by linarith
    then show "snd (ps ! i) < fst (ps ! j) \<or> snd (ps ! j) < fst (ps ! i)"
      using separated_nth_less [OF assms] \<open>i < length ps\<close> \<open>j < length ps\<close> by cases blast+
  qed
  show ?thesis using 1 2 by (simp add: disjoint_and_not_adjacent_def of_pairs_def)
qed

text \<open>
  Claim C5. After every sequence of \<open>add(start, end)\<close> calls on a new \<open>RangeSet\<close> no
  call has raised, the stored ranges are pairwise disjoint and not adjacent, and
  the membership test answers that a point is covered exactly when the point lies inside
  the union of all the added ranges.
\<close>

theorem range_set_add_all_correct:
  "\<exists>rs. range_set_add_all adds new_range_set = Inr rs
        \<and> disjoint_and_not_adjacent rs
        \<and> (\<forall>key. range_set_contains key rs = Inr (key \<in> union_of adds))"
proof -
  have e: "new_range_set = of_pairs []" by (simp add: new_range_set_def of_pairs_def)
  from range_set_add_all_of_pairs [of "[]" adds]
  obtain ps' where r: "range_set_add_all adds (of_pairs []) = Inr (of_pairs ps')"
    and c: "separated ps'" and u: "covered ps' = covered [] \<union> union_of adds"
    by auto
  show ?thesis
    using r separated_disjoint_and_not_adjacent [OF c] range_set_contains_of_pairs [OF c] u
    unfolding e by auto
qed

lemma range_set_example:
  "range_set_add_all [(1, 3), (5, 8), (3, 5), (10, 12), (4, 4)] new_range_set
     = Inr \<lparr>sorted_starts = [1, 10], sorted_ends = [8, 12]\<rparr>"
  by (simp add: new_range_set_def range_set_add_def bisect_left_def bisect_right_def
      getitem_def del_slice_def)

theorem range_set_add_all_correct_witness:
  "range_set_add_all [(1, 3), (5, 8), (3, 5), (10, 12), (4, 4)] new_range_set
     = Inr \<lparr>sorted_starts = [1, 10], sorted_ends = [8, 12]\<rparr>
   \<and> disjoint_and_not_adjacent \<lparr>sorted_starts = [1, 10], sorted_ends = [8, 12]\<rparr>
   \<and> range_set_contains 4 \<lparr>sorted_starts = [1, 10], sorted_ends = [8, 12]\<rparr> = Inr True
   \<and> 4 \<in> union_of [(1, 3), (5, 8), (3, 5), (10, 12), (4, 4)]
   \<and> range_set_contains 8 \<lparr>sorted_starts = [1, 10], sorted_ends = [8, 12]\<rparr> = Inr False
   \<and> 8 \<notin> union_of [(1, 3), (5, 8), (3, 5), (10, 12), (4, 4)]"
  using range_set_add_all_correct [of "[(1, 3), (5, 8), (3, 5), (10, 12), (4, 4)]"]
  unfolding range_set_example
  by (simp add: union_of_def)

section \<open>Commit: the requests issued and the pending operations awaited\<close>

lemma bag_commit_result:
  assumes "bag_commit b h = Inr h'"
  shows "requests h' = requests h
           @ (if bag_cleared b then [Clear (bag_state_key b)] else [])
           @ (if bag_added_elements b \<noteq> []
              then [Extend (bag_state_key b) (bag_added_elements b)] else [])"
    and "awaited h' = awaited h
           @ (if bag_cleared b \<or> bag_added_elements b \<noteq> []
              then [length (requests h') - 1] else [])"
  using assms
  by (auto simp: bag_commit_def handler_clear_def handler_extend_def future_get_def Let_def
      split: if_splits)

lemma set_commit_result:
  assumes "set_commit s h = Inr h'"
  shows "requests h' = requests h
           @ (if set_cleared s then [Clear (set_state_key s)] else [])
           @ (if set_added_elements s \<noteq> []
              then [Extend (set_state_key s) (set_added_elements s)] else [])"
    and "awaited h' = awaited h
           @ (if set_cleared s \<or> set_added_elements s \<noteq> []
              then [length (requests h') - 1] else [])"
  using assms
  by (auto simp: set_commit_def handler_clear_def handler_extend_def future_get_def Let_def
      split: if_splits)

lemma clear_ranges_result:
  "clear_ranges k rs fs h = (fs', h') \<Longrightarrow>
     requests h' = requests h @ map (\<lambda>(a, b). Clear (Range_of_list k a b)) rs
     \<and> fs' = fs @ [length (requests h) ..< length (requests h')]
     \<and> awaited h' = awaited h \<and> failing h' = failing h"
proof (induction rs arbitrary: fs h)
  case Nil
  then show ?case by simp
next
  case (Cons r rs)
  obtain a b where r: "r = (a, b)" by (cases r)
  define h1 where "h1 = h\<lparr>requests := requests h @ [Clear (Range_of_list k a b)]\<rparr>"
  have step: "clear_ranges k rs (fs @ [length (requests h)]) h1 = (fs', h')"
    using Cons.prems by (simp add: r handler_clear_def h1_def)
  note ih = Cons.IH [OF step]
  have len: "length (requests h) < length (requests h')" using ih by (simp add: h1_def)
  have "[length (requests h) ..< length (requests h')]
          = length (requests h) # [length (requests h1) ..< length (requests h')]"
    using len by (simp add: h1_def upt_conv_Cons)
  then show ?case using ih by (simp add: r h1_def)
qed

lemma await_all_result:
  "await_all fs h = Inr h' \<Longrightarrow>
     awaited h' = awaited h @ fs \<and> requests h' = requests h"
proof (induction fs arbitrary: h)
  case Nil
  then show ?case by simp
next
  case (Cons f fs)
  then show ?case
    by (fastforce simp: future_get_def split: if_splits)
qed

lemma ordered_list_commit_result:
  assumes "ordered_list_commit s h = Inr (s', h')"
  shows "requests h' = requests h
           @ map (\<lambda>(a, b). Clear (Range_of_list (ordered_list_state_key s) a b))
               (range_set_iter (pending_removes s))
           @ (if pending_adds s \<noteq> []
              then [Extend (Whole_list (ordered_list_state_key s))
                      (items_to_add (pending_adds s))] else [])"
    and "awaited h' = awaited h @ issued_between h h'"
proof -
  obtain n where n: "range_set_len (pending_removes s) = Inr n"
    using assms by (auto simp: ordered_list_commit_def split: sum.splits)
  have zero: "n = 0 \<Longrightarrow> range_set_iter (pending_removes s) = []"
    using n by (auto simp: range_set_len_def range_set_iter_def split: if_splits)
  obtain fs1 h1 where c: "clear_ranges (ordered_list_state_key s)
      (range_set_iter (pending_removes s)) [] h = (fs1, h1)"
    by (cases "clear_ranges (ordered_list_state_key s) (range_set_iter (pending_removes s)) [] h")
  note cr = clear_ranges_result [OF c]
  define fs2 where "fs2 = (if pending_adds s \<noteq> [] then fs1 @ [length (requests h1)] else fs1)"
  define h2 where "h2 = (if pending_adds s \<noteq> []
     then h1\<lparr>requests := requests h1 @ [Extend (Whole_list (ordered_list_state_key s))
                      (items_to_add (pending_adds s))]\<rparr> else h1)"
  have aw: "await_all fs2 h2 = Inr h'"
    using assms n c zero
    by (auto simp: ordered_list_commit_def Let_def handler_extend_def fs2_def h2_def
        split: if_splits sum.splits prod.splits)
  note ar = await_all_result [OF aw]
  show "requests h' = requests h
           @ map (\<lambda>(a, b). Clear (Range_of_list (ordered_list_state_key s) a b))
               (range_set_iter (pending_removes s))
           @ (if pending_adds s \<noteq> []
              then [Extend (Whole_list (ordered_list_state_key s))
                      (items_to_add (pending_adds s))] else [])"
    using ar cr by (simp add: h2_def)
  have "fs2 = [length (requests h) ..< length (requests h2)]"
    using cr by (auto simp: fs2_def h2_def)
  then show "awaited h' = awaited h @ issued_between h h'"
    using ar cr by (simp add: issued_between_def h2_def)
qed

lemma await_all_total:
  "\<forall>f. \<not> failing h f \<Longrightarrow> \<exists>h'. await_all fs h = Inr h'"
proof (induction fs arbitrary: h)
  case Nil
  then show ?case by simp
next
  case (Cons f fs)
  have "\<forall>g. \<not> failing (h\<lparr>awaited := awaited h @ [f]\<rparr>) g" using Cons.prems by simp
  from Cons.IH [OF this] show ?case using Cons.prems by (simp add: future_get_def)
qed

lemma bag_commit_total:
  "\<forall>f. \<not> failing h f \<Longrightarrow> \<exists>h'. bag_commit b h = Inr h'"
  by (simp add: bag_commit_def handler_clear_def handler_extend_def future_get_def Let_def)

lemma set_commit_total:
  "\<forall>f. \<not> failing h f \<Longrightarrow> \<exists>h'. set_commit s h = Inr h'"
  by (simp add: set_commit_def handler_clear_def handler_extend_def future_get_def Let_def)

lemma ordered_list_commit_total:
  assumes "\<forall>f. \<not> failing h f"
    and "length (sorted_starts (pending_removes s)) = length (sorted_ends (pending_removes s))"
  shows "\<exists>r. ordered_list_commit s h = Inr r"
proof -
  obtain fs1 h1 where c: "clear_ranges (ordered_list_state_key s)
      (range_set_iter (pending_removes s)) [] h = (fs1, h1)"
    by (cases "clear_ranges (ordered_list_state_key s) (range_set_iter (pending_removes s)) [] h")
  have f1: "\<forall>f. \<not> failing h1 f" using clear_ranges_result [OF c] assms(1) by simp
  have a0: "\<And>fs. \<exists>h'. await_all fs h = Inr h'" using await_all_total [OF assms(1)] by blast
  have a1: "\<And>fs. \<exists>h'. await_all fs h1 = Inr h'" using await_all_total [OF f1] by blast
  have a2: "\<And>fs x. \<exists>h'. await_all fs (h1\<lparr>requests := x\<rparr>) = Inr h'"
    using await_all_total [of "h1\<lparr>requests := x\<rparr>" for x] f1 by simp
  have a3: "\<And>fs x. \<exists>h'. await_all fs (h\<lparr>requests := x\<rparr>) = Inr h'"
    using await_all_total [of "h\<lparr>requests := x\<rparr>" for x] assms(1) by simp
  show ?thesis
  proof (cases "pending_adds s = []")
    case True
    then show ?thesis
      using assms(2) c a0 [of "[]"] a1 [of fs1]
      by (auto simp: ordered_list_commit_def range_set_len_def Let_def split: sum.splits)
  next
    case False
    obtain h2 where "await_all (fs1 @ [length (requests h1)])
        (h1\<lparr>requests := requests h1 @ [Extend (Whole_list (ordered_list_state_key s))
                      (items_to_add (pending_adds s))]\<rparr>) = Inr h2"
      using a2 by blast
    moreover obtain h3 where "await_all [length (requests h)]
        (h\<lparr>requests := requests h @ [Extend (Whole_list (ordered_list_state_key s))
                      (items_to_add (pending_adds s))]\<rparr>) = Inr h3"
      using a3 by blast
    ultimately show ?thesis
      using False assms(2) c
      by (auto simp: ordered_list_commit_def range_set_len_def Let_def handler_extend_def
          simp del: await_all.simps split: sum.splits)
  qed
qed

lemma compact_data_fields:
  assumes "compact_data remote rewrite s h = (r, s', h')"
  shows "set_cleared s' = set_cleared s" and "set_state_key s' = set_state_key s"
    and "set_added_elements s' = set_added_elements s \<or> set_added_elements s' = []"
  using assms
  by (auto simp: compact_data_def handler_clear_def handler_extend_def Let_def
      split: sum.splits if_splits)

lemma set_add_fields:
  assumes "set_add remote random v s h = (r, s', h')"
  shows "\<not> set_cleared s' \<and> set_state_key s' = set_state_key s"
proof -
  define s1 where "s1 = (if set_cleared s then s\<lparr>set_cleared := False\<rparr> else s)"
  define h1 where "h1 = (if set_cleared s then snd (handler_clear (set_state_key s) h) else h)"
  define s2 where "s2 = s1\<lparr>set_added_elements :=
     (if v \<in> set (set_added_elements s1) then set_added_elements s1
      else set_added_elements s1 @ [v])\<rparr>"
  have s2: "\<not> set_cleared s2" "set_state_key s2 = set_state_key s"
    by (simp_all add: s2_def s1_def)
  have e: "set_add remote random v s h =
     (if random > 1 / 2
      then (case compact_data remote True s2 h1 of
              (Inl e, s3, h3) \<Rightarrow> (Some e, s3, h3)
            | (Inr accumulator, s3, h3) \<Rightarrow> (None, s3, h3))
      else (None, s2, h1))"
    unfolding set_add_def s1_def h1_def s2_def by (simp only: Let_def split: if_split) simp
  show ?thesis
  proof (cases "random > 1 / 2")
    case False
    then have "s' = s2" using assms unfolding e by simp
    then show ?thesis using s2 by simp
  next
    case True
    obtain r3 s3 h3 where c: "compact_data remote True s2 h1 = (r3, s3, h3)"
      by (cases "compact_data remote True s2 h1")
    have "s' = s3"
      using assms True unfolding e c by (cases r3) simp_all
    then show ?thesis
      using compact_data_fields(1,2) [OF c] s2 by simp
  qed
qed

lemma set_run_invariant:
  assumes "\<not> (set_cleared s \<and> set_added_elements s \<noteq> [])"
  shows "\<not> (set_cleared (fst (set_run cs (s, h)))
              \<and> set_added_elements (fst (set_run cs (s, h))) \<noteq> [])
         \<and> set_state_key (fst (set_run cs (s, h))) = set_state_key s"
  using assms
proof (induction cs arbitrary: s h)
  case Nil
  then show ?case by simp
next
  case (Cons c cs)
  show ?case
  proof (cases c)
    case (Set_add v random remote)
    obtain r s' h' where a: "set_add remote random v s h = (r, s', h')"
      by (cases "set_add remote random v s h")
    have "\<not> (set_cleared s' \<and> set_added_elements s' \<noteq> [])"
      using set_add_fields [OF a] by simp
    from Cons.IH [OF this, of h'] show ?thesis
      using set_add_fields [OF a] by (simp add: Set_add a)
  next
    case Set_clear
    have "\<not> (set_cleared (set_clear s) \<and> set_added_elements (set_clear s) \<noteq> [])"
      by (simp add: set_clear_def)
    from Cons.IH [OF this, of h] show ?thesis
      by (simp add: Set_clear set_clear_def)
  qed
qed

lemma set_commit_reachable:
  assumes "s = fst (set_run cs (new_set_runtime_state state_key, h_new))"
    and "set_commit s h = Inr h'"
  shows "\<not> (set_cleared s \<and> set_added_elements s \<noteq> [])"
    and "set_state_key s = state_key"
    and "length (issued_between h h') \<le> 1"
    and "awaited h' = awaited h @ issued_between h h'"
    and "awaits_every_issued h h'"
proof -
  have "\<not> (set_cleared (new_set_runtime_state state_key :: ('a, 'b) set_runtime_state)
            \<and> set_added_elements (new_set_runtime_state state_key :: ('a, 'b) set_runtime_state)
                \<noteq> [])"
    by (simp add: new_set_runtime_state_def)
  from set_run_invariant [OF this, of cs h_new]
  show inv: "\<not> (set_cleared s \<and> set_added_elements s \<noteq> [])"
    and "set_state_key s = state_key"
    by (simp_all add: assms(1) new_set_runtime_state_def)
  note res = set_commit_result [OF assms(2)]
  show "length (issued_between h h') \<le> 1"
    using inv res(1) by (auto simp: issued_between_def)
  show aw: "awaited h' = awaited h @ issued_between h h'"
    using inv res by (auto simp: issued_between_def)
  show "awaits_every_issued h h'"
    by (simp add: awaits_every_issued_def aw)
qed

text \<open>
  The bag after \<open>clear()\<close> and \<open>add(7)\<close>: \<open>commit\<close> issues the clear and the append and
  awaits the append alone.
\<close>

theorem commit_awaits_every_issued_counterexample:
  "bag_add 7 (bag_clear \<lparr>bag_state_key = ''k'', bag_cleared = False, bag_added_elements = []\<rparr>)
     = \<lparr>bag_state_key = ''k'', bag_cleared = True, bag_added_elements = [7 :: nat]\<rparr>
   \<and> map_sum id requests
     (bag_commit \<lparr>bag_state_key = ''k'', bag_cleared = True, bag_added_elements = [7 :: nat]\<rparr>
        new_state_handler)
     = Inr [Clear ''k'', Extend ''k'' [7]]
   \<and> map_sum id awaited
       (bag_commit \<lparr>bag_state_key = ''k'', bag_cleared = True, bag_added_elements = [7 :: nat]\<rparr>
          new_state_handler)
     = Inr [1]
   \<and> map_sum id (awaits_every_issued new_state_handler)
       (bag_commit \<lparr>bag_state_key = ''k'', bag_cleared = True, bag_added_elements = [7 :: nat]\<rparr>
          new_state_handler)
     = Inr False"
  by (simp add: bag_commit_def handler_clear_def handler_extend_def future_get_def
      new_state_handler_def awaits_every_issued_def issued_between_def bag_add_def
      bag_clear_def)

text \<open>
  Claim C4, amended. \<open>commit\<close> of a bag issues a clear when the object was cleared and then
  an append when it has buffered adds, and awaits the last operation it issued, not every
  one. \<open>commit\<close> of a set, on every object that calls of \<open>add\<close> and \<open>clear\<close> lead to from
  a new one, issues a clear when the object was cleared and an append when it has buffered
  adds, never both, and awaits every operation it issued. \<open>commit\<close> of an ordered list
  issues one clear for each pending-remove range and one append when it has pending adds,
  and awaits every operation it issued. Each returns when no awaited request fails.
\<close>

theorem commit_issues_and_awaits:
  "(bag_commit b hb = Inr hb' \<longrightarrow>
      requests hb' = requests hb
        @ (if bag_cleared b then [Clear (bag_state_key b)] else [])
        @ (if bag_added_elements b \<noteq> []
           then [Extend (bag_state_key b) (bag_added_elements b)] else [])
      \<and> awaited hb' = awaited hb
        @ (if bag_cleared b \<or> bag_added_elements b \<noteq> []
           then [length (requests hb') - 1] else []))
   \<and> (s = fst (set_run cs (new_set_runtime_state state_key, h))
        \<and> set_commit s hs = Inr hs' \<longrightarrow>
      requests hs' = requests hs
        @ (if set_cleared s then [Clear state_key] else [])
        @ (if set_added_elements s \<noteq> []
           then [Extend state_key (set_added_elements s)] else [])
      \<and> \<not> (set_cleared s \<and> set_added_elements s \<noteq> [])
      \<and> length (issued_between hs hs') \<le> 1
      \<and> awaited hs' = awaited hs @ issued_between hs hs'
      \<and> awaits_every_issued hs hs')
   \<and> (ordered_list_commit l hl = Inr (l', hl') \<longrightarrow>
      requests hl' = requests hl
        @ map (\<lambda>(a, b). Clear (Range_of_list (ordered_list_state_key l) a b))
            (range_set_iter (pending_removes l))
        @ (if pending_adds l \<noteq> []
           then [Extend (Whole_list (ordered_list_state_key l))
                   (items_to_add (pending_adds l))] else [])
      \<and> awaited hl' = awaited hl @ issued_between hl hl'
      \<and> awaits_every_issued hl hl')
   \<and> ((\<forall>f. \<not> failing hb f) \<longrightarrow> (\<exists>h. bag_commit b hb = Inr h))
   \<and> ((\<forall>f. \<not> failing hs f) \<longrightarrow> (\<exists>h. set_commit s hs = Inr h))
   \<and> ((\<forall>f. \<not> failing hl f)
        \<and> length (sorted_starts (pending_removes l)) = length (sorted_ends (pending_removes l))
      \<longrightarrow> (\<exists>r. ordered_list_commit l hl = Inr r))"
proof -
  have bag: "bag_commit b hb = Inr hb' \<longrightarrow>
      requests hb' = requests hb
        @ (if bag_cleared b then [Clear (bag_state_key b)] else [])
        @ (if bag_added_elements b \<noteq> []
           then [Extend (bag_state_key b) (bag_added_elements b)] else [])
      \<and> awaited hb' = awaited hb
        @ (if bag_cleared b \<or> bag_added_elements b \<noteq> []
           then [length (requests hb') - 1] else [])"
    using bag_commit_result [of b hb hb'] by (intro impI conjI)
  have st: "s = fst (set_run cs (new_set_runtime_state state_key, h))
        \<and> set_commit s hs = Inr hs' \<longrightarrow>
      requests hs' = requests hs
        @ (if set_cleared s then [Clear state_key] else [])
        @ (if set_added_elements s \<noteq> []
           then [Extend state_key (set_added_elements s)] else [])
      \<and> \<not> (set_cleared s \<and> set_added_elements s \<noteq> [])
      \<and> length (issued_between hs hs') \<le> 1
      \<and> awaited hs' = awaited hs @ issued_between hs hs'
      \<and> awaits_every_issued hs hs'"
  proof (intro impI, elim conjE)
    assume run: "s = fst (set_run cs (new_set_runtime_state state_key, h))"
      and c: "set_commit s hs = Inr hs'"
    note re = set_commit_reachable [OF run c]
    have "requests hs' = requests hs
        @ (if set_cleared s then [Clear state_key] else [])
        @ (if set_added_elements s \<noteq> []
           then [Extend state_key (set_added_elements s)] else [])"
      using set_commit_result(1) [OF c] by (simp only: re(2))
    then show "requests hs' = requests hs
        @ (if set_cleared s then [Clear state_key] else [])
        @ (if set_added_elements s \<noteq> []
           then [Extend state_key (set_added_elements s)] else [])
      \<and> \<not> (set_cleared s \<and> set_added_elements s \<noteq> [])
      \<and> length (issued_between hs hs') \<le> 1
      \<and> awaited hs' = awaited hs @ issued_between hs hs'
      \<and> awaits_every_issued hs hs'"
      using re(1,3,4,5) by (intro conjI)
  qed
  have ol: "ordered_list_commit l hl = Inr (l', hl') \<longrightarrow>
      requests hl' = requests hl
        @ map (\<lambda>(a, b). Clear (Range_of_list (ordered_list_state_key l) a b))
            (range_set_iter (pending_removes l))
        @ (if pending_adds l \<noteq> []
           then [Extend (Whole_list (ordered_list_state_key l))
                   (items_to_add (pending_adds l))] else [])
      \<and> awaited hl' = awaited hl @ issued_between hl hl'
      \<and> awaits_every_issued hl hl'"
  proof (intro impI)
    assume c: "ordered_list_commit l hl = Inr (l', hl')"
    have "awaits_every_issued hl hl'"
      using ordered_list_commit_result(2) [OF c] by (simp add: awaits_every_issued_def)
    then show "requests hl' = requests hl
        @ map (\<lambda>(a, b). Clear (Range_of_list (ordered_list_state_key l) a b))
            (range_set_iter (pending_removes l))
        @ (if pending_adds l \<noteq> []
           then [Extend (Whole_list (ordered_list_state_key l))
                   (items_to_add (pending_adds l))] else [])
      \<and> awaited hl' = awaited hl @ issued_between hl hl'
      \<and> awaits_every_issued hl hl'"
      using ordered_list_commit_result [OF c] by (intro conjI)
  qed
  have t1: "(\<forall>f. \<not> failing hb f) \<longrightarrow> (\<exists>h. bag_commit b hb = Inr h)"
    using bag_commit_total [of hb b] by (intro impI)
  have t2: "(\<forall>f. \<not> failing hs f) \<longrightarrow> (\<exists>h. set_commit s hs = Inr h)"
    using set_commit_total [of hs s] by (intro impI)
  have t3: "(\<forall>f. \<not> failing hl f)
        \<and> length (sorted_starts (pending_removes l)) = length (sorted_ends (pending_removes l))
      \<longrightarrow> (\<exists>r. ordered_list_commit l hl = Inr r)"
    using ordered_list_commit_total [of hl l] by (intro impI, elim conjE)
  show ?thesis
    by (intro conjI bag st ol t1 t2 t3)
qed

lemma commit_example_bag:
  "bag_commit \<lparr>bag_state_key = ''k'', bag_cleared = True, bag_added_elements = [7 :: nat]\<rparr>
     new_state_handler
   = Inr \<lparr>requests = [Clear ''k'', Extend ''k'' [7]], awaited = [1], failing = (\<lambda>_. False)\<rparr>"
  by (simp add: bag_commit_def handler_clear_def handler_extend_def future_get_def
      new_state_handler_def)

lemma commit_example_set_run:
  "set_run [Set_add 7 (3 / 4) (Inr [5]), Set_clear, Set_add 8 (1 / 4) (Inr [])]
     (new_set_runtime_state ''k'', new_state_handler)
   = (\<lparr>set_state_key = ''k'', set_cleared = False, set_added_elements = [8 :: nat]\<rparr>,
      \<lparr>requests = [Clear ''k'', Extend ''k'' [5, 7], Clear ''k''], awaited = [],
       failing = (\<lambda>_. False)\<rparr>)"
  by (simp add: set_add_def set_clear_def compact_data_def handler_clear_def
      handler_extend_def new_set_runtime_state_def new_state_handler_def Let_def)

lemma commit_example_set:
  "set_commit \<lparr>set_state_key = ''k'', set_cleared = False, set_added_elements = [8 :: nat]\<rparr>
     \<lparr>requests = [Clear ''k'', Extend ''k'' [5, 7], Clear ''k''], awaited = [],
      failing = (\<lambda>_. False)\<rparr>
   = Inr \<lparr>requests = [Clear ''k'', Extend ''k'' [5, 7], Clear ''k'', Extend ''k'' [8]],
          awaited = [3], failing = (\<lambda>_. False)\<rparr>"
  by (simp add: set_commit_def handler_clear_def handler_extend_def future_get_def)

lemma commit_example_ordered_list:
  "ordered_list_commit
     \<lparr>ordered_list_state_key = ''k'', ordered_list_cleared = False,
      pending_adds = [(3, [7 :: nat, 8])],
      pending_removes = \<lparr>sorted_starts = [1, 10], sorted_ends = [8, 12]\<rparr>\<rparr>
     new_state_handler
   = Inr (\<lparr>ordered_list_state_key = ''k'', ordered_list_cleared = False,
           pending_adds = [], pending_removes = new_range_set\<rparr>,
          \<lparr>requests = [Clear (Range_of_list ''k'' 1 8), Clear (Range_of_list ''k'' 10 12),
                       Extend (Whole_list ''k'') [(3, 7), (3, 8)]],
           awaited = [0, 1, 2], failing = (\<lambda>_. False)\<rparr>)"
  by (simp add: ordered_list_commit_def range_set_len_def range_set_iter_def
      handler_clear_def handler_extend_def future_get_def new_state_handler_def
      items_to_add_def)

theorem commit_issues_and_awaits_witness:
  "bag_commit \<lparr>bag_state_key = ''k'', bag_cleared = True, bag_added_elements = [7 :: nat]\<rparr>
     new_state_handler
   = Inr \<lparr>requests = [Clear ''k'', Extend ''k'' [7]], awaited = [1], failing = (\<lambda>_. False)\<rparr>
   \<and> set_run [Set_add 7 (3 / 4) (Inr [5]), Set_clear, Set_add 8 (1 / 4) (Inr [])]
       (new_set_runtime_state ''k'', new_state_handler)
     = (\<lparr>set_state_key = ''k'', set_cleared = False, set_added_elements = [8 :: nat]\<rparr>,
        \<lparr>requests = [Clear ''k'', Extend ''k'' [5, 7], Clear ''k''], awaited = [],
         failing = (\<lambda>_. False)\<rparr>)
   \<and> set_commit \<lparr>set_state_key = ''k'', set_cleared = False, set_added_elements = [8 :: nat]\<rparr>
       \<lparr>requests = [Clear ''k'', Extend ''k'' [5, 7], Clear ''k''], awaited = [],
        failing = (\<lambda>_. False)\<rparr>
     = Inr \<lparr>requests = [Clear ''k'', Extend ''k'' [5, 7], Clear ''k'', Extend ''k'' [8]],
            awaited = [3], failing = (\<lambda>_. False)\<rparr>
   \<and> awaits_every_issued
       \<lparr>requests = [Clear ''k'', Extend ''k'' [5, 7 :: nat], Clear ''k''], awaited = [],
        failing = (\<lambda>_. False)\<rparr>
       \<lparr>requests = [Clear ''k'', Extend ''k'' [5, 7], Clear ''k'', Extend ''k'' [8]],
        awaited = [3], failing = (\<lambda>_. False)\<rparr>
   \<and> ordered_list_commit
       \<lparr>ordered_list_state_key = ''k'', ordered_list_cleared = False,
        pending_adds = [(3, [7 :: nat, 8])],
        pending_removes = \<lparr>sorted_starts = [1, 10], sorted_ends = [8, 12]\<rparr>\<rparr>
       new_state_handler
     = Inr (\<lparr>ordered_list_state_key = ''k'', ordered_list_cleared = False,
             pending_adds = [], pending_removes = new_range_set\<rparr>,
            \<lparr>requests = [Clear (Range_of_list ''k'' 1 8), Clear (Range_of_list ''k'' 10 12),
                         Extend (Whole_list ''k'') [(3, 7), (3, 8)]],
             awaited = [0, 1, 2], failing = (\<lambda>_. False)\<rparr>)
   \<and> awaits_every_issued new_state_handler
       \<lparr>requests = [Clear (Range_of_list ''k'' 1 8), Clear (Range_of_list ''k'' 10 12),
                    Extend (Whole_list ''k'') [(3 :: int, 7 :: nat), (3, 8)]],
        awaited = [0, 1, 2], failing = (\<lambda>_. False)\<rparr>"
proof -
  note inst = commit_issues_and_awaits
      [where b = "\<lparr>bag_state_key = ''k'', bag_cleared = True, bag_added_elements = [7 :: nat]\<rparr>"
         and hb = new_state_handler
         and hb' = "\<lparr>requests = [Clear ''k'', Extend ''k'' [7]], awaited = [1],
                     failing = (\<lambda>_. False)\<rparr>"
         and s = "\<lparr>set_state_key = ''k'', set_cleared = False,
                   set_added_elements = [8 :: nat]\<rparr>"
         and cs = "[Set_add 7 (3 / 4) (Inr [5]), Set_clear, Set_add 8 (1 / 4) (Inr [])]"
         and state_key = "''k''" and h = new_state_handler
         and hs = "\<lparr>requests = [Clear ''k'', Extend ''k'' [5, 7], Clear ''k''], awaited = [],
                    failing = (\<lambda>_. False)\<rparr>"
         and hs' = "\<lparr>requests = [Clear ''k'', Extend ''k'' [5, 7], Clear ''k'',
                                 Extend ''k'' [8]],
                     awaited = [3], failing = (\<lambda>_. False)\<rparr>"
         and l = "\<lparr>ordered_list_state_key = ''k'', ordered_list_cleared = False,
                   pending_adds = [(3, [7 :: nat, 8])],
                   pending_removes = \<lparr>sorted_starts = [1, 10], sorted_ends = [8, 12]\<rparr>\<rparr>"
         and hl = new_state_handler
         and l' = "\<lparr>ordered_list_state_key = ''k'', ordered_list_cleared = False,
                    pending_adds = [], pending_removes = new_range_set\<rparr>"
         and hl' = "\<lparr>requests = [Clear (Range_of_list ''k'' 1 8),
                                 Clear (Range_of_list ''k'' 10 12),
                                 Extend (Whole_list ''k'') [(3, 7), (3, 8)]],
                     awaited = [0, 1, 2], failing = (\<lambda>_. False)\<rparr>"]
  have r: "\<lparr>set_state_key = ''k'', set_cleared = False, set_added_elements = [8 :: nat]\<rparr>
             = fst (set_run [Set_add 7 (3 / 4) (Inr [5]), Set_clear, Set_add 8 (1 / 4) (Inr [])]
                      (new_set_runtime_state ''k'', new_state_handler))"
    by (simp only: commit_example_set_run fst_conv)
  have 1: "awaits_every_issued
       \<lparr>requests = [Clear ''k'', Extend ''k'' [5, 7 :: nat], Clear ''k''], awaited = [],
        failing = (\<lambda>_. False)\<rparr>
       \<lparr>requests = [Clear ''k'', Extend ''k'' [5, 7], Clear ''k'', Extend ''k'' [8]],
        awaited = [3], failing = (\<lambda>_. False)\<rparr>"
    using inst r commit_example_set by blast
  have 2: "awaits_every_issued new_state_handler
       \<lparr>requests = [Clear (Range_of_list ''k'' 1 8), Clear (Range_of_list ''k'' 10 12),
                    Extend (Whole_list ''k'') [(3 :: int, 7 :: nat), (3, 8)]],
        awaited = [0, 1, 2], failing = (\<lambda>_. False)\<rparr>"
    using inst commit_example_ordered_list by blast
  show ?thesis
    using 1 2
    by (intro conjI commit_example_bag commit_example_set_run commit_example_set
        commit_example_ordered_list)
qed

section \<open>CombiningValue: what read returns\<close>

lemma combining_value_run_merged:
  assumes "algebraic_contract fn"
  shows "merge_accumulators fn (bag_read remote (underlying_bag_state cv))
           = merge_accumulators fn accs
         \<Longrightarrow> fst (combining_value_run fn remote cs cv) = merged_outputs fn accs cs"
proof (induction cs arbitrary: cv accs)
  case Nil
  show ?case by simp
next
  case (Cons c cs)
  have m1: "\<And>xs v. add_input fn (merge_accumulators fn xs) v
              = merge_accumulators fn (xs @ [add_input fn (create_accumulator fn) v])"
    and m2: "\<And>xs ys. merge_accumulators fn (merge_accumulators fn xs # ys)
              = merge_accumulators fn (xs @ ys)"
    using assms by (simp_all add: algebraic_contract_def)
  show ?case
  proof (cases c)
    case (Add_call v r)
    define cv' where "cv' = combining_value_add fn remote r v cv"
    have "merge_accumulators fn (bag_read remote (underlying_bag_state cv'))
            = merge_accumulators fn (accs @ [add_input fn (create_accumulator fn) v])"
    proof (cases "r < 1 / 2")
      case True
      then have "bag_read remote (underlying_bag_state cv')
                   = [add_input fn (merge_accumulators fn
                        (bag_read remote (underlying_bag_state cv))) v]"
        by (simp add: cv'_def combining_value_add_def read_accumulator_def Let_def
            bag_read_def bag_add_def bag_clear_def)
      then show ?thesis using m1 m2 [of _ "[]"] Cons.prems by simp
    next
      case False
      then have "bag_read remote (underlying_bag_state cv')
                   = bag_read remote (underlying_bag_state cv)
                     @ [add_input fn (create_accumulator fn) v]"
        by (simp add: cv'_def combining_value_add_def Let_def bag_read_def bag_add_def)
      then show ?thesis using m1 [symmetric] Cons.prems by simp
    qed
    from Cons.IH [OF this] show ?thesis by (simp add: Add_call cv'_def)
  next
    case Read_call
    obtain out cv' where r: "combining_value_read fn remote cv = (out, cv')"
      by (cases "combining_value_read fn remote cv")
    have out: "out = extract_output fn (merge_accumulators fn accs)"
      using r Cons.prems by (simp add: combining_value_read_def read_accumulator_def Let_def)
    have "bag_read remote (underlying_bag_state cv')
            = [merge_accumulators fn (bag_read remote (underlying_bag_state cv))]"
      using r
      by (auto simp: combining_value_read_def read_accumulator_def Let_def bag_read_def
          bag_add_def bag_clear_def)
    then have "merge_accumulators fn (bag_read remote (underlying_bag_state cv'))
                 = merge_accumulators fn accs"
      using m2 [of _ "[]"] Cons.prems by simp
    from Cons.IH [OF this] show ?thesis
      by (auto simp: Read_call r out split: prod.splits)
  qed
qed

text \<open>
  Claim C6. For a combine function that satisfies its contract, through every sequence of
  \<open>add\<close> and \<open>read\<close> cs and whatever the random draws of the \<open>add\<close> cs are, each
  \<open>read\<close> returns the output extracted from the merge of all the values added so far
  (with what the bag held at first).
\<close>

theorem combining_value_read_reflects_all_adds:
  assumes "algebraic_contract combinefn"
  shows "fst (combining_value_run combinefn remote cs cv)
           = merged_outputs combinefn (bag_read remote (underlying_bag_state cv)) cs"
  using combining_value_run_merged [OF assms] by blast

lemma sum_combine_fn_contract: "algebraic_contract sum_combine_fn"
  by (simp add: algebraic_contract_def sum_combine_fn_def)

theorem combining_value_read_reflects_all_adds_witness:
  "algebraic_contract sum_combine_fn
   \<and> fst (combining_value_run sum_combine_fn [10]
        [Add_call 3 (1 / 4), Read_call, Add_call 4 (3 / 4), Add_call 5 (1 / 4), Read_call]
        \<lparr>underlying_bag_state =
           \<lparr>bag_state_key = ''k'', bag_cleared = False, bag_added_elements = []\<rparr>,
         finalized = False\<rparr>)
     = [13, 22]"
  using combining_value_read_reflects_all_adds [OF sum_combine_fn_contract, of "[10]"
      "[Add_call 3 (1 / 4), Read_call, Add_call 4 (3 / 4), Add_call 5 (1 / 4), Read_call]"
      "\<lparr>underlying_bag_state =
           \<lparr>bag_state_key = ''k'', bag_cleared = False, bag_added_elements = []\<rparr>,
         finalized = False\<rparr>"]
    sum_combine_fn_contract
  by (simp add: bag_read_def sum_combine_fn_def)

section \<open>process_bundle: start order, finish order and the current instruction\<close>

lemma run_calls_prefix: "\<exists>n. fst (run_calls raises cs) = take n cs"
proof (induction cs)
  case Nil
  show ?case by simp
next
  case (Cons c cs)
  then obtain n where n: "fst (run_calls raises cs) = take n cs" by blast
  show ?case
  proof (cases "raises c")
    case None
    have "fst (run_calls raises (c # cs)) = take (Suc n) (c # cs)"
      using None n by (cases "run_calls raises cs") simp
    then show ?thesis by blast
  next
    case (Some e)
    have "fst (run_calls raises (c # cs)) = take 1 (c # cs)"
      using Some by simp
    then show ?thesis by blast
  qed
qed

lemma run_calls_all: "snd (run_calls raises cs) = None \<Longrightarrow> fst (run_calls raises cs) = cs"
  by (induction cs) (auto split: option.splits prod.splits)

lemma started_ops_append: "started_ops (xs @ ys) = started_ops xs @ started_ops ys"
  by (induction xs rule: started_ops.induct) simp_all

lemma finished_ops_append: "finished_ops (xs @ ys) = finished_ops xs @ finished_ops ys"
  by (induction xs rule: finished_ops.induct) simp_all

lemma started_ops_Start: "started_ops (map Start xs) = xs"
  by (induction xs) simp_all

lemma finished_ops_Finish: "finished_ops (map Finish xs) = xs"
  by (induction xs) simp_all

lemma started_ops_none: "\<forall>c \<in> set cs. \<forall>op. c \<noteq> Start op \<Longrightarrow> started_ops cs = []"
  by (induction cs rule: started_ops.induct) auto

lemma finished_ops_none: "\<forall>c \<in> set cs. \<forall>op. c \<noteq> Finish op \<Longrightarrow> finished_ops cs = []"
  by (induction cs rule: finished_ops.induct) auto

lemma started_ops_take_Start: "started_ops (take n (map Start xs)) = take n xs"
  by (simp add: take_map started_ops_Start)

lemma finished_ops_take_Finish: "finished_ops (take n (map Finish xs)) = take n xs"
  by (simp add: take_map finished_ops_Finish)

lemma dispatch_one_no_Start: "\<forall>c \<in> set (dispatch el). \<forall>op. c \<noteq> Start op"
  by (cases el) auto

lemma dispatch_one_no_Finish: "\<forall>c \<in> set (dispatch el). \<forall>op. c \<noteq> Finish op"
  by (cases el) auto

lemma dispatch_no_Start: "\<forall>c \<in> set (concat (map dispatch els)). \<forall>op. c \<noteq> Start op"
  using dispatch_one_no_Start by auto

lemma dispatch_no_Finish: "\<forall>c \<in> set (concat (map dispatch els)). \<forall>op. c \<noteq> Finish op"
  using dispatch_one_no_Finish by auto

lemma started_ops_body_take:
  "\<exists>m. started_ops (take n (body_calls os els ts)) = take m (rev os)"
proof -
  define rest where "rest = concat (map dispatch els) @ map Finish os
     @ map (\<lambda>(transform_id, timer_family_id).
              Close_timer_output_stream transform_id timer_family_id) ts"
  have no: "\<forall>c \<in> set rest. \<forall>op. c \<noteq> Start op"
    using dispatch_no_Start [of els] by (auto simp: rest_def)
  have "\<forall>c \<in> set (take k rest). \<forall>op. c \<noteq> Start op" for k
    using no by (meson in_set_takeD)
  then have "started_ops (take k rest) = []" for k
    by (rule started_ops_none)
  then have "started_ops (take n (body_calls os els ts)) = take n (rev os)"
    by (simp add: body_calls_def rest_def [symmetric] started_ops_append
        started_ops_take_Start)
  then show ?thesis by blast
qed

lemma finished_ops_body_take:
  "\<exists>m. finished_ops (take n (body_calls os els ts)) = take m os"
proof -
  define front where "front = map Start (rev os) @ concat (map dispatch els)"
  define closing where "closing = map (\<lambda>(transform_id, timer_family_id).
              Close_timer_output_stream transform_id timer_family_id) ts"
  have nf: "\<forall>c \<in> set front. \<forall>op. c \<noteq> Finish op"
    using dispatch_no_Finish [of els] by (auto simp: front_def)
  have nb: "\<forall>c \<in> set closing. \<forall>op. c \<noteq> Finish op"
    by (auto simp: closing_def)
  have f: "finished_ops (take k front) = []" for k
    using nf by (intro finished_ops_none) (meson in_set_takeD)
  have b: "finished_ops (take k closing) = []" for k
    using nb by (intro finished_ops_none) (meson in_set_takeD)
  have "body_calls os els ts = front @ map Finish os @ closing"
    by (simp add: body_calls_def front_def closing_def)
  then have "finished_ops (take n (body_calls os els ts))
               = take (n - length front) os"
    by (simp add: finished_ops_append f b finished_ops_take_Finish)
  then show ?thesis by blast
qed

lemma started_ops_body: "started_ops (body_calls os els ts) = rev os"
proof -
  have "started_ops (concat (map dispatch els)) = []"
    using dispatch_no_Start by (rule started_ops_none)
  moreover have "started_ops (map Finish os) = []"
    by (rule started_ops_none) auto
  moreover have "started_ops (map (\<lambda>(transform_id, timer_family_id).
              Close_timer_output_stream transform_id timer_family_id) ts) = []"
    by (rule started_ops_none) auto
  ultimately show ?thesis
    by (simp add: body_calls_def started_ops_append started_ops_Start)
qed

lemma finished_ops_body: "finished_ops (body_calls os els ts) = os"
proof -
  have "finished_ops (concat (map dispatch els)) = []"
    using dispatch_no_Finish by (rule finished_ops_none)
  moreover have "finished_ops (map Start (rev os)) = []"
    by (rule finished_ops_none) auto
  moreover have "finished_ops (map (\<lambda>(transform_id, timer_family_id).
              Close_timer_output_stream transform_id timer_family_id) ts) = []"
    by (rule finished_ops_none) auto
  ultimately show ?thesis
    by (simp add: body_calls_def finished_ops_append finished_ops_Finish)
qed

text \<open>What \<open>process_bundle\<close> adds to the log of calls.\<close>

lemma process_bundle_calls:
  "\<exists>before n.
      calls (snd (process_bundle iid els raises bp))
        = calls bp @ before @ take n (body_calls (ops bp) els (timers_info bp))
      \<and> started_ops before = [] \<and> finished_ops before = []
      \<and> (fst (process_bundle iid els raises bp) = Inr ()
           \<longrightarrow> n = length (body_calls (ops bp) els (timers_info bp)))"
proof -
  define pre where "pre = map Set_output_stream
     (filter (\<lambda>op. op_kind_of bp op = Data_output_operation) (ops bp))"
  obtain before r0 where r0: "run_calls raises pre = (before, r0)"
    by (cases "run_calls raises pre")
  obtain k where k: "before = take k pre"
    using run_calls_prefix [of raises pre] r0 by auto
  have "\<forall>c \<in> set before. \<forall>op. c \<noteq> Start op" "\<forall>c \<in> set before. \<forall>op. c \<noteq> Finish op"
    unfolding k pre_def by (auto dest!: in_set_takeD)
  then have none: "started_ops before = []" "finished_ops before = []"
    using started_ops_none finished_ops_none by blast+
  show ?thesis
  proof (cases r0)
    case (Some e)
    have "calls (snd (process_bundle iid els raises bp))
            = calls bp @ before @ take 0 (body_calls (ops bp) els (timers_info bp))"
      and "fst (process_bundle iid els raises bp) \<noteq> Inr ()"
      using r0 Some by (simp_all add: process_bundle_def pre_def [symmetric])
    then show ?thesis using none by blast
  next
    case None
    define body where "body = body_calls (ops bp) els (timers_info bp)"
    obtain ran r where r: "run_calls raises body = (ran, r)"
      by (cases "run_calls raises body")
    obtain n where n: "ran = take n body"
      using run_calls_prefix [of raises body] r by auto
    have c: "calls (snd (process_bundle iid els raises bp)) = calls bp @ before @ ran"
      using r0 None r
      by (simp add: process_bundle_def pre_def [symmetric] body_def body_calls_def Let_def)
    have ok: "fst (process_bundle iid els raises bp) = Inr () \<Longrightarrow> ran = body"
      using r0 None r run_calls_all [of raises body]
      by (auto simp: process_bundle_def pre_def [symmetric] body_def body_calls_def Let_def
          split: option.splits)
    show ?thesis
    proof (cases "fst (process_bundle iid els raises bp) = Inr ()")
      case True
      then have "ran = take (length body) body" using ok by simp
      then have "calls (snd (process_bundle iid els raises bp))
                   = calls bp @ before @ take (length body) body"
        using c by simp
      then show ?thesis using none unfolding body_def by blast
    next
      case False
      have "calls (snd (process_bundle iid els raises bp)) = calls bp @ before @ take n body"
        using c n by simp
      then show ?thesis using none False unfolding body_def by blast
    qed
  qed
qed

lemma those_eq_Some: "those xs = Some ys \<longleftrightarrow> xs = map Some ys"
proof (induction xs arbitrary: ys)
  case Nil
  show ?case by auto
next
  case (Cons x xs)
  show ?case
  proof (cases x)
    case None
    then show ?thesis by auto
  next
    case (Some a)
    show ?thesis
    proof (cases "those xs")
      case None
      then have "\<And>zs. xs \<noteq> map Some zs" using Cons.IH by auto
      then show ?thesis using None Some by (cases ys) auto
    next
      case (Some zs)
      then have "xs = map Some zs" using Cons.IH by simp
      then show ?thesis using Some \<open>x = Some a\<close> by (cases ys) auto
    qed
  qed
qed

lemma topological_height_Suc:
  "topological_height n d t = Some h \<Longrightarrow> topological_height (Suc n) d t = Some h"
proof (induction n arbitrary: t h)
  case 0
  then show ?case by simp
next
  case (Suc n)
  from Suc.prems obtain cs hs where cs: "consumers_of d t = Some cs"
    and hs: "those (map (topological_height n d) cs) = Some hs"
    and h: "h = 1 + fold max hs 0"
    by (auto split: option.splits)
  have eq: "map (topological_height n d) cs = map Some hs"
    using hs those_eq_Some by blast
  have "map (topological_height (Suc n) d) cs = map (topological_height n d) cs"
  proof (rule map_cong [OF refl])
    fix c assume "c \<in> set cs"
    then have "topological_height n d c \<in> set (map Some hs)"
      using eq by (metis image_eqI set_map)
    then obtain hc where "topological_height n d c = Some hc" by auto
    then show "topological_height (Suc n) d c = topological_height n d c"
      using Suc.IH by simp
  qed
  then have t: "those (map (topological_height (Suc n) d) cs) = Some hs"
    using hs by (simp only:)
  have "topological_height (Suc (Suc n)) d t
          = (case those (map (topological_height (Suc n) d) cs) of
               None \<Rightarrow> None | Some heights \<Rightarrow> Some (1 + fold max heights 0))"
    using cs by (simp only: topological_height.simps option.case)
  also have "\<dots> = Some h" by (simp only: t option.case h)
  finally show ?case .
qed

lemma topological_height_characterisation:
  assumes "topological_height fuel d t = Some h"
  shows "\<exists>cs. consumers_of d t = Some cs
           \<and> h = 1 + Max (set (0 # map (height_of fuel d) cs))"
proof -
  obtain n where fuel: "fuel = Suc n" using assms by (cases fuel) auto
  from assms obtain cs hs where cs: "consumers_of d t = Some cs"
    and hs: "those (map (topological_height n d) cs) = Some hs"
    and h: "h = 1 + fold max hs 0"
    unfolding fuel by (auto split: option.splits)
  have eq: "map (topological_height n d) cs = map Some hs"
    using hs those_eq_Some by blast
  have len: "length cs = length hs" using eq by (metis length_map)
  have "map (height_of fuel d) cs = hs"
  proof (rule nth_equalityI)
    show "length (map (height_of fuel d) cs) = length hs" using len by simp
  next
    fix i assume "i < length (map (height_of fuel d) cs)"
    then have i: "i < length cs" by simp
    have "topological_height n d (cs ! i) = Some (hs ! i)"
      using eq i len by (metis nth_map)
    then have "topological_height fuel d (cs ! i) = Some (hs ! i)"
      unfolding fuel by (rule topological_height_Suc)
    then show "map (height_of fuel d) cs ! i = hs ! i"
      using i by (simp add: height_of_def)
  qed
  moreover have "fold max hs 0 = Max (set (0 # hs))"
    by (simp only: Max.set_eq_fold)
  ultimately show ?thesis using cs h by auto
qed

lemma sorted_negated_rev: "sorted (map (\<lambda>x. - int x) xs) \<Longrightarrow> sorted (rev xs)"
  by (induction xs) (auto simp: sorted_append)

lemma create_execution_tree_descending:
  assumes "create_execution_tree fuel d = Some os"
  shows "descending (map (height_of fuel d) os)"
    and "set os = set (map fst (transforms d))"
    and "length os = length (transforms d)"
    and "\<forall>t \<in> set os. \<exists>h. topological_height fuel d t = Some h"
proof -
  define tids where "tids = map fst (transforms d)"
  from assms obtain hs where hs: "those (map (topological_height fuel d) tids) = Some hs"
    and os: "os = map fst (sort_key (\<lambda>(transform_id, height). - int height) (zip tids hs))"
    by (auto simp: create_execution_tree_def tids_def Let_def split: option.splits)
  have eq: "map (topological_height fuel d) tids = map Some hs"
    using hs those_eq_Some by blast
  have len: "length tids = length hs" using eq by (metis length_map)
  define L where "L = sort_key (\<lambda>(transform_id, height). - int height) (zip tids hs)"
  have setL: "set L = set (zip tids hs)" by (simp add: L_def)
  have el: "topological_height fuel d t = Some h" if "(t, h) \<in> set L" for t h
  proof -
    from that obtain i where i: "i < length tids" "tids ! i = t" "hs ! i = h"
      unfolding setL by (auto simp: in_set_zip)
    have "topological_height fuel d (tids ! i) = Some (hs ! i)"
      using eq i(1) len by (metis nth_map)
    then show ?thesis using i by simp
  qed
  have hL: "map (height_of fuel d) (map fst L) = map snd L"
  proof (rule nth_equalityI)
    show "length (map (height_of fuel d) (map fst L)) = length (map snd L)" by simp
  next
    fix i assume "i < length (map (height_of fuel d) (map fst L))"
    then have i: "i < length L" by simp
    then have "(fst (L ! i), snd (L ! i)) \<in> set L" by simp
    then have "topological_height fuel d (fst (L ! i)) = Some (snd (L ! i))" by (rule el)
    then show "map (height_of fuel d) (map fst L) ! i = map snd L ! i"
      using i by (simp add: height_of_def)
  qed
  have "sorted (map (\<lambda>(transform_id, height). - int height) L)"
    unfolding L_def by (rule sorted_sort_key)
  then have "sorted (map (\<lambda>x. - int x) (map snd L))"
    by (simp add: case_prod_unfold comp_def)
  then have "sorted (rev (map snd L))" by (rule sorted_negated_rev)
  moreover have "os = map fst L" by (simp only: os L_def)
  ultimately show "descending (map (height_of fuel d) os)"
    by (simp only: descending_def hL)
  have "set os = fst ` set (zip tids hs)" by (simp add: os)
  also have "\<dots> = set tids" using len by (metis map_fst_zip set_map)
  finally show "set os = set (map fst (transforms d))" by (simp add: tids_def)
  show "length os = length (transforms d)" using len by (simp add: os tids_def)
  show "\<forall>t \<in> set os. \<exists>h. topological_height fuel d t = Some h"
    using el by (auto simp: os L_def [symmetric])
qed

lemma ascending_take_rev:
  "descending hs \<Longrightarrow> ascending (take m (rev hs))"
  by (simp add: descending_def ascending_def sorted_wrt_take)

lemma descending_take:
  "descending hs \<Longrightarrow> descending (take m hs)"
  by (simp add: descending_def rev_take sorted_wrt_drop)

text \<open>
  Claim C7, amended. During \<open>process_bundle\<close> the operations are started in ascending
  order of topological height and finished in descending order of topological height,
  where the height of a transform is 1 + the greatest height of its consumers, 1 for a
  transform with no consumer. When no call raises, all of them are started, in the reverse
  of the order of \<open>ops\<close>, and finished, in the order of \<open>ops\<close>.
\<close>

theorem process_bundle_start_and_finish_order:
  assumes "create_execution_tree fuel d = Some (ops bp)"
  shows "ascending (map (height_of fuel d)
           (started_ops (drop (length (calls bp))
              (calls (snd (process_bundle iid els raises bp))))))
         \<and> descending (map (height_of fuel d)
             (finished_ops (drop (length (calls bp))
                (calls (snd (process_bundle iid els raises bp))))))
         \<and> (fst (process_bundle iid els raises bp) = Inr ()
              \<longrightarrow> started_ops (drop (length (calls bp))
                      (calls (snd (process_bundle iid els raises bp)))) = rev (ops bp)
                \<and> finished_ops (drop (length (calls bp))
                      (calls (snd (process_bundle iid els raises bp)))) = ops bp)
         \<and> set (ops bp) = set (map fst (transforms d))
         \<and> (\<forall>t \<in> set (ops bp).
               \<exists>cs. consumers_of d t = Some cs
                 \<and> height_of fuel d t = 1 + Max (set (0 # map (height_of fuel d) cs)))"
proof -
  note ce = create_execution_tree_descending [OF assms]
  from process_bundle_calls [of iid els raises bp]
  obtain before n where c: "calls (snd (process_bundle iid els raises bp))
        = calls bp @ before @ take n (body_calls (ops bp) els (timers_info bp))"
    and b: "started_ops before = []" "finished_ops before = []"
    and ok: "fst (process_bundle iid els raises bp) = Inr ()
           \<longrightarrow> n = length (body_calls (ops bp) els (timers_info bp))"
    by blast
  define new where "new = drop (length (calls bp)) (calls (snd (process_bundle iid els raises bp)))"
  have new: "new = before @ take n (body_calls (ops bp) els (timers_info bp))"
    by (simp add: new_def c)
  obtain m1 where m1: "started_ops new = take m1 (rev (ops bp))"
    using started_ops_body_take [of n "ops bp" els "timers_info bp"] b
    by (auto simp: new started_ops_append)
  obtain m2 where m2: "finished_ops new = take m2 (ops bp)"
    using finished_ops_body_take [of n "ops bp" els "timers_info bp"] b
    by (auto simp: new finished_ops_append)
  have 1: "ascending (map (height_of fuel d) (started_ops new))"
    using ascending_take_rev [OF ce(1), of m1] by (simp add: m1 take_map rev_map)
  have 2: "descending (map (height_of fuel d) (finished_ops new))"
    using descending_take [OF ce(1), of m2] by (simp add: m2 take_map)
  have 3: "fst (process_bundle iid els raises bp) = Inr ()
             \<longrightarrow> started_ops new = rev (ops bp) \<and> finished_ops new = ops bp"
    using ok b by (auto simp: new started_ops_append finished_ops_append
        started_ops_body finished_ops_body)
  have 4: "\<forall>t \<in> set (ops bp).
               \<exists>cs. consumers_of d t = Some cs
                 \<and> height_of fuel d t = 1 + Max (set (0 # map (height_of fuel d) cs))"
  proof
    fix t assume "t \<in> set (ops bp)"
    then obtain h where h: "topological_height fuel d t = Some h" using ce(4) by blast
    from topological_height_characterisation [OF h] h
    show "\<exists>cs. consumers_of d t = Some cs
            \<and> height_of fuel d t = 1 + Max (set (0 # map (height_of fuel d) cs))"
      by (simp add: height_of_def)
  qed
  show ?thesis using 1 2 3 4 ce(2) unfolding new_def by blast
qed

lemma source_to_sink_heights:
  "topological_height 3 source_to_sink ''source'' = Some 2"
  "topological_height 3 source_to_sink ''sink'' = Some 1"
  by (simp_all add: numeral_3_eq_3 source_to_sink_def consumers_of_def pcoll_consumers_def
      is_side_input_def)

lemma source_to_sink_tree:
  "create_execution_tree 3 source_to_sink = Some [''source'', ''sink'']"
proof -
  have tr: "map fst (transforms source_to_sink) = [''source'', ''sink'']"
    by (simp add: source_to_sink_def)
  show ?thesis
    by (simp add: create_execution_tree_def tr source_to_sink_heights)
qed

lemma source_to_sink_height_of:
  "height_of 3 source_to_sink ''source'' = 2" "height_of 3 source_to_sink ''sink'' = 1"
  by (simp_all add: height_of_def source_to_sink_heights)

lemma two_ops_bundle:
  "process_bundle ''bundle-2'' [] never_raises (two_ops current)
     = (Inr (), \<lparr>ops = [''source'', ''sink''], op_kind_of = (\<lambda>op. Other_operation),
                timers_info = [], current_instruction_id = None,
                calls = [Start ''sink'', Start ''source'', Finish ''source'',
                         Finish ''sink'']\<rparr>)"
  by (simp add: process_bundle_def two_ops_def never_raises_def)

text \<open>
  For the source with one sink, the sink (height 1) is started before the source
  (height 2), and the source is finished before the sink.
\<close>

theorem process_bundle_start_order_counterexample:
  "create_execution_tree 3 source_to_sink = Some (ops (two_ops None))
   \<and> started_ops (calls (snd (process_bundle ''bundle-2'' [] never_raises (two_ops None))))
       = [''sink'', ''source'']
   \<and> map (height_of 3 source_to_sink) [''sink'', ''source''] = [1, 2]
   \<and> \<not> descending (map (height_of 3 source_to_sink)
         (started_ops (calls (snd (process_bundle ''bundle-2'' [] never_raises
                                     (two_ops None))))))
   \<and> finished_ops (calls (snd (process_bundle ''bundle-2'' [] never_raises (two_ops None))))
       = [''source'', ''sink'']
   \<and> \<not> ascending (map (height_of 3 source_to_sink)
         (finished_ops (calls (snd (process_bundle ''bundle-2'' [] never_raises
                                      (two_ops None))))))"
proof -
  have o: "ops (two_ops None) = [''source'', ''sink'']" by (simp add: two_ops_def)
  show ?thesis
    by (simp add: two_ops_bundle source_to_sink_tree o source_to_sink_height_of
        descending_def ascending_def)
qed

theorem process_bundle_start_and_finish_order_witness:
  "create_execution_tree 3 source_to_sink = Some (ops (two_ops None))
   \<and> fst (process_bundle ''bundle-2'' [] never_raises (two_ops None)) = Inr ()
   \<and> started_ops (calls (snd (process_bundle ''bundle-2'' [] never_raises (two_ops None))))
       = [''sink'', ''source'']
   \<and> finished_ops (calls (snd (process_bundle ''bundle-2'' [] never_raises (two_ops None))))
       = [''source'', ''sink'']
   \<and> ascending (map (height_of 3 source_to_sink) [''sink'', ''source''])
   \<and> descending (map (height_of 3 source_to_sink) [''source'', ''sink''])
   \<and> consumers_of source_to_sink ''source'' = Some [''sink'']
   \<and> height_of 3 source_to_sink ''source'' = 1 + Max (set [0, height_of 3 source_to_sink ''sink''])
   \<and> consumers_of source_to_sink ''sink'' = Some []
   \<and> height_of 3 source_to_sink ''sink'' = 1"
proof -
  have t: "create_execution_tree 3 source_to_sink = Some (ops (two_ops None))"
    by (simp add: source_to_sink_tree two_ops_def)
  have c: "consumers_of source_to_sink ''source'' = Some [''sink'']"
    "consumers_of source_to_sink ''sink'' = Some []"
    by (simp_all add: source_to_sink_def consumers_of_def pcoll_consumers_def
        is_side_input_def)
  have n: "calls (two_ops None) = []" by (simp add: two_ops_def)
  have o: "ops (two_ops None) = [''source'', ''sink'']" by (simp add: two_ops_def)
  show ?thesis
    using process_bundle_start_and_finish_order
      [OF t, of "''bundle-2''" "[]" never_raises] t c
    by (simp add: two_ops_bundle n o source_to_sink_height_of ascending_def descending_def)
qed




section \<open>The multimap side-input view: the bulk read\<close>

lemma bulk_read_loop_status:
  "ix \<le> Suc BULK_READ_LIMIT \<Longrightarrow>
     fst (bulk_read_loop ix (iterable_of items) c)
       = (if ix + length items \<le> Suc BULK_READ_LIMIT then Fully else Partially)"
proof (induction items arbitrary: ix c)
  case Nil
  then show ?case by (simp add: iterable_of_def)
next
  case (Cons p items)
  obtain k vs where p: "p = (k, vs)" by (cases p)
  show ?case
  proof (cases "ix > BULK_READ_LIMIT")
    case True
    then show ?thesis by (simp add: iterable_of_def p)
  next
    case False
    then have "Suc ix \<le> Suc BULK_READ_LIMIT" by simp
    from Cons.IH [OF this] show ?thesis
      using False by (simp add: iterable_of_def p)
  qed
qed

lemma multi_map_getitem_bulk_read:
  "bulk_read (snd (multi_map_getitem True key_values key new_multi_map))
     = Some (fst (bulk_read_loop 0 key_values (\<lambda>k. None)))"
  by (simp add: multi_map_getitem_def new_multi_map_def Let_def
      split: prod.splits option.splits)

lemma multi_map_getitem_fully:
  "bulk_read m = Some Fully \<Longrightarrow>
     multi_map_getitem True key_values key m
       = (case cache m key of None \<Rightarrow> Values [] | Some v \<Rightarrow> v, m)"
  by (simp add: multi_map_getitem_def Let_def)

lemma multi_map_getitem_partially:
  "bulk_read m = Some Partially \<Longrightarrow>
     fst (multi_map_getitem True key_values key m)
       = (case cache m key of None \<Rightarrow> State_backed_iterable key | Some v \<Rightarrow> v)
     \<and> bulk_read (snd (multi_map_getitem True key_values key m)) = Some Partially
     \<and> (\<forall>k v. cache m k = Some v
           \<longrightarrow> cache (snd (multi_map_getitem True key_values key m)) k = Some v)"
  by (auto simp: multi_map_getitem_def Let_def split: option.splits)

text \<open>
  Claim C9, at the bound. With the limit of 100, a bulk read that gives 101 pairs and
  ends marks the map fully loaded; the map falls back to point lookups from 102 pairs on.
\<close>

theorem bulk_read_of_101_pairs_is_full:
  "BULK_READ_LIMIT = 100
   \<and> length (numbered_pairs 101) = 101
   \<and> bulk_read (snd (multi_map_getitem True (iterable_of (numbered_pairs 101)) 0
                        new_multi_map)) = Some Fully
   \<and> length (numbered_pairs 102) = 102
   \<and> bulk_read (snd (multi_map_getitem True (iterable_of (numbered_pairs 102)) 0
                        new_multi_map)) = Some Partially"
proof -
  have len: "length (numbered_pairs 101) = 101" "length (numbered_pairs 102) = 102"
    by (simp_all add: numbered_pairs_def)
  have "fst (bulk_read_loop 0 (iterable_of (numbered_pairs 101)) (\<lambda>k. None)) = Fully"
    using bulk_read_loop_status [of 0 "numbered_pairs 101"] len
    by (simp add: BULK_READ_LIMIT_def)
  moreover have "fst (bulk_read_loop 0 (iterable_of (numbered_pairs 102)) (\<lambda>k. None))
                   = Partially"
    using bulk_read_loop_status [of 0 "numbered_pairs 102"] len
    by (simp add: BULK_READ_LIMIT_def)
  ultimately show ?thesis
    using len by (simp add: multi_map_getitem_bulk_read BULK_READ_LIMIT_def)
qed

end
